theory Spec2Isabelle
  imports
    Main
    "HOL-Library.AList"
    "HOL-Library.Sublist"
    "HOL-Library.Char_ord"
    "HOL-Library.List_Lexorder"
begin

section \<open>Data model (types.ts)\<close>

text \<open>
  The two record shapes of \<^verbatim>\<open>types.ts\<close>. Both have a field \<^verbatim>\<open>id\<close> in the source; the
  fields are named \<open>note_id\<close> and \<open>habit_id\<close> here, since \<open>id\<close> is the identity function
  of HOL. \<^verbatim>\<open>createdAt\<close> is an epoch time in milliseconds, \<^verbatim>\<open>streak\<close> is only ever
  assigned an array length, and \<^verbatim>\<open>completedDays\<close> is a \<^verbatim>\<open>string[]\<close>: a list, in which
  order and repetition are visible.
\<close>

record Note =
  note_id :: string
  title :: string
  content :: string
  createdAt :: int
  synced :: bool

record Habit =
  habit_id :: string
  name :: string
  completedDays :: "string list"
  streak :: nat

text \<open>
  \<^verbatim>\<open>put\<close> takes \<^verbatim>\<open>data: any\<close>; the values this program hands to it are notes and habits.
  Both object stores are created with \<^verbatim>\<open>{ keyPath: 'id' }\<close>, so the key of a stored value
  is its \<^verbatim>\<open>id\<close> field.
\<close>

datatype stored = StoredNote Note | StoredHabit Habit

fun keyPath_id :: "stored \<Rightarrow> string" where
  "keyPath_id (StoredNote n) = note_id n"
| "keyPath_id (StoredHabit h) = habit_id h"


section \<open>The browser's database engine, as db.ts uses it\<close>

text \<open>
  IndexedDB itself is the browser's, not this repository's. The part of its behaviour that
  \<^verbatim>\<open>db.ts\<close> relies on is written out here: an object store holds values, each under
  the key its key path gives, \<^verbatim>\<open>put\<close> replaces the value of that key or adds one,
  \<^verbatim>\<open>delete\<close> of an absent key succeeds and changes nothing, \<^verbatim>\<open>getAll\<close> returns the
  values in ascending key order, every \<^verbatim>\<open>indexedDB.open\<close> that succeeds returns a new
  connection object, and \<^verbatim>\<open>onupgradeneeded\<close> runs when the stored version is below the
  requested one.
\<close>

type_synonym object_store = "stored list"

fun store_put :: "stored \<Rightarrow> object_store \<Rightarrow> object_store" where
  "store_put r [] = [r]"
| "store_put r (x # xs) =
     (if keyPath_id x = keyPath_id r then r # xs else x # store_put r xs)"

definition store_delete :: "string \<Rightarrow> object_store \<Rightarrow> object_store" where
  "store_delete k os = filter (\<lambda>r. keyPath_id r \<noteq> k) os"

definition store_getAll :: "object_store \<Rightarrow> stored list" where
  "store_getAll os = sort_key keyPath_id os"

text \<open>A connection object is known by its identity only.\<close>

type_synonym IDBDatabase = nat

record engine =
  version :: nat
  stores :: "(string \<times> object_store) list"
  next_conn :: nat

text \<open>
  What the browser answers during one call: whether \<^verbatim>\<open>indexedDB.open\<close> fires
  \<^verbatim>\<open>onsuccess\<close> rather than \<^verbatim>\<open>onerror\<close>, and whether the request made inside the
  transaction does.
\<close>

record browser =
  open_ok :: bool
  request_ok :: bool

text \<open>
  The ways a promise of \<^verbatim>\<open>LocalDatabase\<close> is rejected: \<^verbatim>\<open>request.onerror\<close> of
  \<^verbatim>\<open>indexedDB.open\<close> (\<open>OpenError\<close>, or \<open>VersionError\<close> when the stored version is
  above the requested one), an unknown store name in \<^verbatim>\<open>transaction\<close>
  (\<open>NotFoundError\<close>), \<^verbatim>\<open>request.onerror\<close> inside a transaction (\<open>RequestError\<close>),
  and the dereference of a null \<^verbatim>\<open>this.db\<close> (\<open>NotInitialized\<close>).
\<close>

datatype error =
    OpenError
  | VersionError
  | NotFoundError
  | RequestError
  | NotInitialized

definition DB_VERSION :: nat where
  "DB_VERSION = 1"

definition objectStoreNames_contains :: "engine \<Rightarrow> string \<Rightarrow> bool" where
  "objectStoreNames_contains e n = (n \<in> set (map fst (stores e)))"

definition createObjectStore :: "string \<Rightarrow> engine \<Rightarrow> engine" where
  "createObjectStore n e = e\<lparr>stores := stores e @ [(n, [])]\<rparr>"

definition onupgradeneeded :: "engine \<Rightarrow> engine" where
  "onupgradeneeded e =
     (let e1 = (if \<not> objectStoreNames_contains e ''notes''
                then createObjectStore ''notes'' e else e);
          e2 = (if \<not> objectStoreNames_contains e1 ''habits''
                then createObjectStore ''habits'' e1 else e1)
      in e2)"

definition indexedDB_open :: "browser \<Rightarrow> engine \<Rightarrow> error + (IDBDatabase \<times> engine)" where
  "indexedDB_open b e =
     (if \<not> open_ok b then Inl OpenError
      else if DB_VERSION < version e then Inl VersionError
      else
        let e1 = (if version e < DB_VERSION
                  then (onupgradeneeded e)\<lparr>version := DB_VERSION\<rparr> else e)
        in Inr (next_conn e1, e1\<lparr>next_conn := Suc (next_conn e1)\<rparr>))"


section \<open>LocalDatabase (services/db.ts)\<close>

text \<open>
  The state an operation of \<^verbatim>\<open>LocalDatabase\<close> reads and writes: its private field
  \<^verbatim>\<open>db\<close> and the engine behind \<^verbatim>\<open>indexedDB\<close>. Every operation returns the settled
  value of its promise (\<open>Inl\<close> a rejection) and the state it leaves. One operation runs
  to completion before the next starts.
\<close>

record LocalDatabase =
  db :: "IDBDatabase option"
  indexedDB :: engine

definition init :: "browser \<Rightarrow> LocalDatabase \<Rightarrow> (error + unit) \<times> LocalDatabase" where
  "init b s =
     (case indexedDB_open b (indexedDB s) of
        Inl err \<Rightarrow> (Inl err, s)
      | Inr (conn, e') \<Rightarrow> (Inr (), s\<lparr>db := Some conn, indexedDB := e'\<rparr>))"

text \<open>The first line of each private operation: \<^verbatim>\<open>if (!this.db) await this.init();\<close>\<close>

definition ensure_open :: "browser \<Rightarrow> LocalDatabase \<Rightarrow> (error + unit) \<times> LocalDatabase" where
  "ensure_open b s = (if db s = None then init b s else (Inr (), s))"

text \<open>
  \<^verbatim>\<open>this.db!.transaction(storeName, ...).objectStore(storeName)\<close>: a null \<^verbatim>\<open>db\<close> is
  the dereference of an absent handle, an unknown store name is the engine's
  \<^verbatim>\<open>NotFoundError\<close>. Both are thrown inside the promise executor and reject the promise.
\<close>

definition transaction :: "LocalDatabase \<Rightarrow> string \<Rightarrow> error + object_store" where
  "transaction s storeName =
     (case db s of
        None \<Rightarrow> Inl NotInitialized
      | Some conn \<Rightarrow>
          (case map_of (stores (indexedDB s)) storeName of
             None \<Rightarrow> Inl NotFoundError
           | Some os \<Rightarrow> Inr os))"

definition write_store :: "string \<Rightarrow> object_store \<Rightarrow> LocalDatabase \<Rightarrow> LocalDatabase" where
  "write_store storeName os s =
     s\<lparr>indexedDB := (indexedDB s)\<lparr>stores := AList.update storeName os (stores (indexedDB s))\<rparr>\<rparr>"

definition getAll :: "browser \<Rightarrow> string \<Rightarrow> LocalDatabase \<Rightarrow> (error + stored list) \<times> LocalDatabase" where
  "getAll b storeName s =
     (case ensure_open b s of
        (Inl err, s1) \<Rightarrow> (Inl err, s1)
      | (Inr u, s1) \<Rightarrow>
          (case transaction s1 storeName of
             Inl err \<Rightarrow> (Inl err, s1)
           | Inr os \<Rightarrow>
               if request_ok b then (Inr (store_getAll os), s1)
               else (Inl RequestError, s1)))"

definition put :: "browser \<Rightarrow> string \<Rightarrow> stored \<Rightarrow> LocalDatabase \<Rightarrow> (error + unit) \<times> LocalDatabase" where
  "put b storeName data s =
     (case ensure_open b s of
        (Inl err, s1) \<Rightarrow> (Inl err, s1)
      | (Inr u, s1) \<Rightarrow>
          (case transaction s1 storeName of
             Inl err \<Rightarrow> (Inl err, s1)
           | Inr os \<Rightarrow>
               if request_ok b then (Inr (), write_store storeName (store_put data os) s1)
               else (Inl RequestError, s1)))"

definition delete :: "browser \<Rightarrow> string \<Rightarrow> string \<Rightarrow> LocalDatabase \<Rightarrow> (error + unit) \<times> LocalDatabase" where
  "delete b storeName k s =
     (case ensure_open b s of
        (Inl err, s1) \<Rightarrow> (Inl err, s1)
      | (Inr u, s1) \<Rightarrow>
          (case transaction s1 storeName of
             Inl err \<Rightarrow> (Inl err, s1)
           | Inr os \<Rightarrow>
               if request_ok b then (Inr (), write_store storeName (store_delete k os) s1)
               else (Inl RequestError, s1)))"

definition getAllNotes :: "browser \<Rightarrow> LocalDatabase \<Rightarrow> (error + stored list) \<times> LocalDatabase" where
  "getAllNotes b s = getAll b ''notes'' s"

definition saveNote :: "browser \<Rightarrow> Note \<Rightarrow> LocalDatabase \<Rightarrow> (error + unit) \<times> LocalDatabase" where
  "saveNote b note s = put b ''notes'' (StoredNote note) s"

definition deleteNote :: "browser \<Rightarrow> string \<Rightarrow> LocalDatabase \<Rightarrow> (error + unit) \<times> LocalDatabase" where
  "deleteNote b k s = delete b ''notes'' k s"

definition getAllHabits :: "browser \<Rightarrow> LocalDatabase \<Rightarrow> (error + stored list) \<times> LocalDatabase" where
  "getAllHabits b s = getAll b ''habits'' s"

definition saveHabit :: "browser \<Rightarrow> Habit \<Rightarrow> LocalDatabase \<Rightarrow> (error + unit) \<times> LocalDatabase" where
  "saveHabit b habit s = put b ''habits'' (StoredHabit habit) s"

text \<open>A browser profile in which the database has never been opened.\<close>

definition fresh :: LocalDatabase where
  "fresh = \<lparr>db = None, indexedDB = \<lparr>version = 0, stores = [], next_conn = 0\<rparr>\<rparr>"

definition healthy :: browser where
  "healthy = \<lparr>open_ok = True, request_ok = True\<rparr>"

definition blocked :: browser where
  "blocked = \<lparr>open_ok = False, request_ok = True\<rparr>"


section \<open>Habit handlers (App.tsx)\<close>

text \<open>
  The callback of \<^verbatim>\<open>habits.map\<close> in \<^verbatim>\<open>handleToggleHabit\<close>, for a habit whose id
  matches. \<open>today\<close> is \<^verbatim>\<open>new Date().toISOString().split('T')[0]\<close>, read from the
  clock by the handler.
\<close>

definition toggleDay :: "string \<Rightarrow> Habit \<Rightarrow> Habit" where
  "toggleDay today h =
     (let completed = (today \<in> set (completedDays h));
          nextDays = (if completed
                      then filter (\<lambda>d. d \<noteq> today) (completedDays h)
                      else completedDays h @ [today])
      in h\<lparr>completedDays := nextDays, streak := length nextDays\<rparr>)"

definition toggleHabits :: "string \<Rightarrow> string \<Rightarrow> Habit list \<Rightarrow> Habit list" where
  "toggleHabits today habitId hs =
     map (\<lambda>h. if habit_id h = habitId then toggleDay today h else h) hs"

text \<open>
  The component state the habit handlers use, with the database service they call.
\<close>

record App =
  habits :: "Habit list"
  dbService :: LocalDatabase

text \<open>
  A rejected \<^verbatim>\<open>await dbService.saveHabit(...)\<close> leaves the handler before
  \<^verbatim>\<open>setHabits\<close>, so the list on screen stays as it was.
\<close>

definition handleToggleHabit :: "browser \<Rightarrow> string \<Rightarrow> string \<Rightarrow> App \<Rightarrow> (error + unit) \<times> App" where
  "handleToggleHabit b today habitId a =
     (let newHabits = toggleHabits today habitId (habits a)
      in case find (\<lambda>h. habit_id h = habitId) newHabits of
           None \<Rightarrow> (Inr (), a\<lparr>habits := newHabits\<rparr>)
         | Some updated \<Rightarrow>
             (case saveHabit b updated (dbService a) of
                (Inl err, s1) \<Rightarrow> (Inl err, a\<lparr>dbService := s1\<rparr>)
              | (Inr u, s1) \<Rightarrow> (Inr (), \<lparr>habits = newHabits, dbService = s1\<rparr>)))"

text \<open>
  \<open>answer\<close> is what \<^verbatim>\<open>prompt\<close> returned (\<open>None\<close> for a cancelled dialog) and
  \<open>uuid\<close> what \<^verbatim>\<open>crypto.randomUUID()\<close> returned. \<^verbatim>\<open>if (!name) return\<close> leaves on
  \<^verbatim>\<open>null\<close> and on the empty string.
\<close>

definition createHabit :: "browser \<Rightarrow> string \<Rightarrow> string option \<Rightarrow> App \<Rightarrow> (error + unit) \<times> App" where
  "createHabit b uuid answer a =
     (case answer of
        None \<Rightarrow> (Inr (), a)
      | Some nm \<Rightarrow>
          if nm = [] then (Inr (), a)
          else
            let habit = \<lparr>habit_id = uuid, name = nm, completedDays = [], streak = 0\<rparr>
            in (case saveHabit b habit (dbService a) of
                  (Inl err, s1) \<Rightarrow> (Inl err, a\<lparr>dbService := s1\<rparr>)
                | (Inr u, s1) \<Rightarrow> (Inr (), \<lparr>habits = habits a @ [habit], dbService = s1\<rparr>)))"

text \<open>
  \<^verbatim>\<open>loadData\<close>, as far as habits go: open the database, read both stores, and show
  what the habit store holds. The source casts the result of \<^verbatim>\<open>getAll('habits')\<close> to
  \<^verbatim>\<open>Habit[]\<close> unchecked; only \<^verbatim>\<open>saveHabit\<close> writes that store, and the projection
  below keeps exactly the habits.
\<close>

fun as_habits :: "stored list \<Rightarrow> Habit list" where
  "as_habits [] = []"
| "as_habits (StoredHabit h # rs) = h # as_habits rs"
| "as_habits (StoredNote n # rs) = as_habits rs"

definition loadData :: "browser \<Rightarrow> App \<Rightarrow> (error + unit) \<times> App" where
  "loadData b a =
     (case init b (dbService a) of
        (Inl err, s1) \<Rightarrow> (Inl err, a\<lparr>dbService := s1\<rparr>)
      | (Inr u, s1) \<Rightarrow>
          (case getAllNotes b s1 of
             (Inl err, s2) \<Rightarrow> (Inl err, a\<lparr>dbService := s2\<rparr>)
           | (Inr fetchedNotes, s2) \<Rightarrow>
               (case getAllHabits b s2 of
                  (Inl err, s3) \<Rightarrow> (Inl err, a\<lparr>dbService := s3\<rparr>)
                | (Inr fetchedHabits, s3) \<Rightarrow>
                    (Inr (), \<lparr>habits = as_habits fetchedHabits, dbService = s3\<rparr>))))"

text \<open>The habit operations of the program, and a run of them from the first start.\<close>

datatype event =
    LoadData browser
  | CreateHabit browser string "string option"
  | ToggleHabit browser string string

fun handle :: "event \<Rightarrow> App \<Rightarrow> App" where
  "handle (LoadData b) a = snd (loadData b a)"
| "handle (CreateHabit b uuid answer) a = snd (createHabit b uuid answer a)"
| "handle (ToggleHabit b today habitId) a = snd (handleToggleHabit b today habitId a)"

fun run :: "event list \<Rightarrow> App \<Rightarrow> App" where
  "run [] a = a"
| "run (ev # evs) a = run evs (handle ev a)"

definition first_start :: App where
  "first_start = \<lparr>habits = [], dbService = fresh\<rparr>"


section \<open>Service worker: the fetch handler\<close>

text \<open>
  A request as the handler reads it (\<^verbatim>\<open>url\<close>, \<^verbatim>\<open>method\<close>, \<^verbatim>\<open>mode\<close>), and a response.
  A cache maps request URLs to responses; \<^verbatim>\<open>caches\<close> holds the named caches in order
  of creation. \<^verbatim>\<open>caches.match\<close> and \<^verbatim>\<open>cache.match\<close> find entries for \<^verbatim>\<open>GET\<close>
  requests only, and resolve to \<^verbatim>\<open>undefined\<close> (\<open>None\<close>) when nothing matches.
\<close>

record Request =
  url :: string
  http_method :: string
  mode :: string

record Response =
  status :: nat
  body :: string

type_synonym cache = "(string \<times> Response) list"

type_synonym cache_storage = "(string \<times> cache) list"

definition CACHE_NAME :: string where
  "CACHE_NAME = ''zenmind-v1''"

text \<open>\<^verbatim>\<open>String.prototype.includes\<close>: \<open>sub\<close> occurs in \<open>s\<close> as a contiguous block.\<close>

fun str_includes :: "string \<Rightarrow> string \<Rightarrow> bool" where
  "str_includes [] sub = (sub = [])"
| "str_includes (c # cs) sub = (prefix sub (c # cs) \<or> str_includes cs sub)"

definition cache_match :: "Request \<Rightarrow> cache \<Rightarrow> Response option" where
  "cache_match r c = (if http_method r = ''GET'' then map_of c (url r) else None)"

fun caches_match :: "Request \<Rightarrow> cache_storage \<Rightarrow> Response option" where
  "caches_match r [] = None"
| "caches_match r ((n, c) # cs) =
     (case cache_match r c of Some resp \<Rightarrow> Some resp | None \<Rightarrow> caches_match r cs)"

text \<open>\<^verbatim>\<open>caches.open(name)\<close> creates the cache when there is none of that name.\<close>

definition caches_open :: "string \<Rightarrow> cache_storage \<Rightarrow> cache \<times> cache_storage" where
  "caches_open n cs =
     (case map_of cs n of
        Some c \<Rightarrow> (c, cs)
      | None \<Rightarrow> ([], cs @ [(n, [])]))"

definition cache_put :: "string \<Rightarrow> Request \<Rightarrow> Response \<Rightarrow> cache_storage \<Rightarrow> cache_storage" where
  "cache_put n r resp cs =
     (case map_of cs n of
        Some c \<Rightarrow> AList.update n (AList.update (url r) resp c) cs
      | None \<Rightarrow> cs)"

text \<open>
  What the worker's surroundings answer during one fetch event: the origin against which
  \<^verbatim>\<open>'/index.html'\<close> is resolved, the outcome of \<^verbatim>\<open>fetch(request)\<close> (\<open>None\<close> when the
  promise rejects), and whether the engine accepts a \<^verbatim>\<open>cache.put\<close>. The handler does
  not wait for the promise of \<^verbatim>\<open>cache.put\<close>, so a refused write changes nothing else.
\<close>

record surroundings =
  origin :: string
  fetch :: "Request \<Rightarrow> Response option"
  put_accepted :: bool

text \<open>
  What the page that made the request gets: the handler did not call
  \<^verbatim>\<open>respondWith\<close> and the browser carries on by itself, or the handler answered with a
  response, or the promise given to \<^verbatim>\<open>respondWith\<close> settled without a response and the
  request fails with a network error.
\<close>

datatype outcome = NotIntercepted | Responded Response | NetworkError

definition index_html :: "surroundings \<Rightarrow> Request" where
  "index_html env = \<lparr>url = origin env @ ''/index.html'', http_method = ''GET'', mode = ''cors''\<rparr>"

definition fetch_handler :: "surroundings \<Rightarrow> Request \<Rightarrow> cache_storage \<Rightarrow> outcome \<times> cache_storage" where
  "fetch_handler env request cs =
     (if str_includes (url request) ''generativelanguage.googleapis.com''
      then (NotIntercepted, cs)
      else
        case caches_match request cs of
          Some response \<Rightarrow> (Responded response, cs)
        | None \<Rightarrow>
            (case fetch env request of
               Some fetchResponse \<Rightarrow>
                 (let (c, cs1) = caches_open CACHE_NAME cs;
                      cs2 = (if http_method request = ''GET''
                                \<and> \<not> str_includes (url request) ''chrome-extension''
                                \<and> put_accepted env
                             then cache_put CACHE_NAME request fetchResponse cs1
                             else cs1)
                  in (Responded fetchResponse, cs2))
             | None \<Rightarrow>
                 if mode request = ''navigate''
                 then (case caches_match (index_html env) cs of
                         Some shell \<Rightarrow> (Responded shell, cs)
                       | None \<Rightarrow> (NetworkError, cs))
                 else (NetworkError, cs)))"

section \<open>Notions the properties are stated with\<close>

text \<open>What the object store of a collection holds, as \<^verbatim>\<open>getAll\<close> would list it.\<close>

definition records :: "string \<Rightarrow> LocalDatabase \<Rightarrow> stored list" where
  "records c s =
     (case map_of (stores (indexedDB s)) c of
        None \<Rightarrow> []
      | Some os \<Rightarrow> store_getAll os)"

text \<open>
  The states the engine and \<^verbatim>\<open>init\<close> can produce: the database is absent (version 0)
  or has the version this program asks for, with both of its object stores; and a
  connection is held only to a database of that version.
\<close>

definition upgraded :: "engine \<Rightarrow> bool" where
  "upgraded e =
     (version e = DB_VERSION
      \<and> objectStoreNames_contains e ''notes''
      \<and> objectStoreNames_contains e ''habits'')"

definition consistent :: "LocalDatabase \<Rightarrow> bool" where
  "consistent s =
     ((version (indexedDB s) = 0 \<or> upgraded (indexedDB s))
      \<and> (db s \<noteq> None \<longrightarrow> upgraded (indexedDB s)))"

text \<open>No object store holds two values under one key.\<close>

definition unique_keys :: "LocalDatabase \<Rightarrow> bool" where
  "unique_keys s =
     (\<forall>c os. map_of (stores (indexedDB s)) c = Some os \<longrightarrow> distinct (map keyPath_id os))"

text \<open>The service right after its first successful \<^verbatim>\<open>init\<close>.\<close>

definition opened :: LocalDatabase where
  "opened = snd (init healthy fresh)"

definition streak_is_count :: "Habit \<Rightarrow> bool" where
  "streak_is_count h = (streak h = length (completedDays h))"

text \<open>\<^verbatim>\<open>Response.ok\<close>: the status is in the range 200 to 299.\<close>

definition response_ok :: "Response \<Rightarrow> bool" where
  "response_ok resp = (200 \<le> status resp \<and> status resp \<le> 299)"

text \<open>The entries of the cache of a given name; none when there is no such cache.\<close>

definition cache_entries :: "string \<Rightarrow> cache_storage \<Rightarrow> cache" where
  "cache_entries n cs = (case map_of cs n of None \<Rightarrow> [] | Some c \<Rightarrow> c)"

text \<open>
  The invariant of the habit handlers: every habit on screen and every habit in an object
  store has a \<^verbatim>\<open>streak\<close> equal to the number of its \<^verbatim>\<open>completedDays\<close>.
\<close>

definition stored_ok :: "LocalDatabase \<Rightarrow> bool" where
  "stored_ok s = (\<forall>c h. StoredHabit h \<in> set (records c s) \<longrightarrow> streak_is_count h)"

definition app_ok :: "App \<Rightarrow> bool" where
  "app_ok a = ((\<forall>h \<in> set (habits a). streak_is_count h) \<and> stored_ok (dbService a))"

text \<open>
  The days on which a run toggles, in the order of the run: what the clock showed at each
  \<^verbatim>\<open>handleToggleHabit\<close>. The clock does not go back during a run when this list is
  sorted.
\<close>

fun toggle_days :: "event list \<Rightarrow> string list" where
  "toggle_days [] = []"
| "toggle_days (ToggleHabit b today habitId # evs) = today # toggle_days evs"
| "toggle_days (LoadData b # evs) = toggle_days evs"
| "toggle_days (CreateHabit b uuid answer # evs) = toggle_days evs"

text \<open>
  The completed days of a habit are in strictly ascending order and all among the days
  \<open>B\<close>; and a property that holds of every habit on screen and of every habit in an
  object store.
\<close>

definition days_within :: "string set \<Rightarrow> Habit \<Rightarrow> bool" where
  "days_within B h = (sorted_wrt (<) (completedDays h) \<and> set (completedDays h) \<subseteq> B)"

definition stored_all :: "(Habit \<Rightarrow> bool) \<Rightarrow> LocalDatabase \<Rightarrow> bool" where
  "stored_all P s = (\<forall>c h. StoredHabit h \<in> set (records c s) \<longrightarrow> P h)"

definition app_all :: "(Habit \<Rightarrow> bool) \<Rightarrow> App \<Rightarrow> bool" where
  "app_all P a = ((\<forall>h \<in> set (habits a). P h) \<and> stored_all P (dbService a))"

text \<open>A habit completed on two days, the later one recorded first.\<close>

definition habit_x :: Habit where
  "habit_x = \<lparr>habit_id = ''h1'', name = ''Run'',
              completedDays = [''2024-01-02'', ''2024-01-01''], streak = 2\<rparr>"


section \<open>Concrete states and requests\<close>

text \<open>Two notes, and the store after both have been saved on a new profile.\<close>

definition note_a :: Note where
  "note_a = \<lparr>note_id = ''a'', title = ''T'', content = ''C'', createdAt = 1000, synced = True\<rparr>"

definition note_b :: Note where
  "note_b = \<lparr>note_id = ''b'', title = ''U'', content = ''D'', createdAt = 2000, synced = False\<rparr>"

definition two_notes :: LocalDatabase where
  "two_notes =
     \<lparr>db = Some 0,
      indexedDB = \<lparr>version = 1,
                   stores = [(''notes'', [StoredNote note_b, StoredNote note_a]), (''habits'', [])],
                   next_conn = 1\<rparr>\<rparr>"

text \<open>A first session: load, create the habit \<^verbatim>\<open>Run\<close>, complete it for one day.\<close>

definition example_run :: "event list" where
  "example_run =
     [LoadData healthy,
      CreateHabit healthy ''h1'' (Some ''Run''),
      ToggleHabit healthy ''2024-01-01'' ''h1'']"

text \<open>The habit that the first session leaves.\<close>

definition run_habit :: Habit where
  "run_habit = \<lparr>habit_id = ''h1'', name = ''Run'', completedDays = [''2024-01-01''], streak = 1\<rparr>"

definition two_habits :: App where
  "two_habits =
     \<lparr>habits = [habit_x, \<lparr>habit_id = ''h2'', name = ''Read'', completedDays = [], streak = 0\<rparr>],
      dbService = fresh\<rparr>"

text \<open>A network that is down, and one that answers every request with a given response.\<close>

definition offline :: "Request \<Rightarrow> Response option" where
  "offline r = None"

definition serves :: "Response \<Rightarrow> Request \<Rightarrow> Response option" where
  "serves resp r = Some resp"

definition shell_page :: Response where
  "shell_page = \<lparr>status = 200, body = ''<!DOCTYPE html>''\<rparr>"

definition not_found :: Response where
  "not_found = \<lparr>status = 404, body = ''Not Found''\<rparr>"

definition logo :: Response where
  "logo = \<lparr>status = 200, body = ''PNG''\<rparr>"

text \<open>The cache storage with the application shell in the current cache.\<close>

definition installed :: cache_storage where
  "installed = [(''zenmind-v1'', [(''https://zen.example/index.html'', shell_page)])]"

definition offline_env :: surroundings where
  "offline_env = \<lparr>origin = ''https://zen.example'', fetch = offline, put_accepted = True\<rparr>"

definition not_found_env :: surroundings where
  "not_found_env =
     \<lparr>origin = ''https://zen.example'', fetch = serves not_found, put_accepted = True\<rparr>"

definition online_env :: surroundings where
  "online_env = \<lparr>origin = ''https://zen.example'', fetch = serves logo, put_accepted = True\<rparr>"

definition navigation :: Request where
  "navigation =
     \<lparr>url = ''https://zen.example/habits'', http_method = ''GET'', mode = ''navigate''\<rparr>"

definition image_request :: Request where
  "image_request =
     \<lparr>url = ''https://zen.example/logo.png'', http_method = ''GET'', mode = ''no-cors''\<rparr>"

definition missing_image :: Request where
  "missing_image =
     \<lparr>url = ''https://zen.example/missing.png'', http_method = ''GET'', mode = ''no-cors''\<rparr>"

definition post_request :: Request where
  "post_request =
     \<lparr>url = ''https://zen.example/logo.png'', http_method = ''POST'', mode = ''cors''\<rparr>"

definition insight_request :: Request where
  "insight_request =
     \<lparr>url = ''https://generativelanguage.googleapis.com/v1beta/models'',
      http_method = ''GET'', mode = ''cors''\<rparr>"


section \<open>Properties of the local store\<close>

subsection \<open>Object stores, opening, and the invariant\<close>

lemma store_put_member: "r \<in> set (store_put r os)"
  by (induction os) auto

lemma set_store_getAll: "set (store_getAll os) = set os"
  by (simp add: store_getAll_def)

lemma store_delete_keys: "x \<in> set (store_delete k os) \<Longrightarrow> keyPath_id x \<noteq> k"
  by (simp add: store_delete_def)

lemma store_delete_absent: "k \<notin> keyPath_id ` set os \<Longrightarrow> store_delete k os = os"
  by (induction os) (auto simp: store_delete_def)

lemma ensure_open_opened: "ensure_open b s = (Inr u, s1) \<Longrightarrow> db s1 \<noteq> None"
  by (auto simp: ensure_open_def init_def split: if_splits sum.splits prod.splits)

lemma ensure_open_already: "db s \<noteq> None \<Longrightarrow> ensure_open b s = (Inr (), s)"
  by (auto simp: ensure_open_def)

lemma transaction_write_store:
  "transaction s c = Inr os \<Longrightarrow> transaction (write_store c os' s) c = Inr os'"
  by (auto simp: transaction_def write_store_def update_conv' split: option.splits)

lemma db_write_store: "db (write_store c os s) = db s"
  by (simp add: write_store_def)

lemma put_success:
  assumes "put b c r s = (Inr u, s1)"
  obtains s0 os where "ensure_open b s = (Inr (), s0)" "transaction s0 c = Inr os"
    "request_ok b" "s1 = write_store c (store_put r os) s0"
  using assms by (auto simp: put_def split: prod.splits sum.splits if_splits)

lemma delete_success:
  assumes "delete b c k s = (Inr u, s1)"
  obtains s0 os where "ensure_open b s = (Inr (), s0)" "transaction s0 c = Inr os"
    "request_ok b" "s1 = write_store c (store_delete k os) s0"
  using assms by (auto simp: delete_def split: prod.splits sum.splits if_splits)

lemma getAll_opened:
  assumes "db s \<noteq> None" "transaction s c = Inr os" "request_ok b"
  shows "getAll b c s = (Inr (store_getAll os), s)"
  using assms by (simp add: getAll_def ensure_open_already)

lemma records_write_store:
  "transaction s c = Inr os \<Longrightarrow> records c (write_store c os' s) = store_getAll os'"
  by (auto simp: records_def transaction_def write_store_def update_conv' split: option.splits)

lemma records_transaction:
  "transaction s c = Inr os \<Longrightarrow> records c s = store_getAll os"
  by (auto simp: records_def transaction_def split: option.splits)

lemma contains_iff_map_of:
  "objectStoreNames_contains e n \<longleftrightarrow> map_of (stores e) n \<noteq> None"
  by (simp add: objectStoreNames_contains_def map_of_eq_None_iff)

lemma upgraded_onupgradeneeded:
  "upgraded ((onupgradeneeded e)\<lparr>version := DB_VERSION\<rparr>)"
  by (auto simp: upgraded_def onupgradeneeded_def Let_def objectStoreNames_contains_def
      createObjectStore_def)

lemma indexedDB_open_upgraded:
  assumes "indexedDB_open b e = Inr (conn, e')" and "version e = 0 \<or> upgraded e"
  shows "upgraded e'"
proof (cases "version e < DB_VERSION")
  case True
  with assms(1) have "e' = ((onupgradeneeded e)\<lparr>version := DB_VERSION\<rparr>)
      \<lparr>next_conn := Suc (next_conn ((onupgradeneeded e)\<lparr>version := DB_VERSION\<rparr>))\<rparr>"
    by (auto simp: indexedDB_open_def Let_def split: if_splits)
  moreover have "upgraded ((onupgradeneeded e)\<lparr>version := DB_VERSION\<rparr>)"
    by (rule upgraded_onupgradeneeded)
  ultimately show ?thesis
    by (simp add: upgraded_def objectStoreNames_contains_def)
next
  case False
  with assms(2) have up: "upgraded e"
    by (auto simp: DB_VERSION_def)
  from False assms(1) have "e' = e\<lparr>next_conn := Suc (next_conn e)\<rparr>"
    by (auto simp: indexedDB_open_def Let_def split: if_splits)
  with up show ?thesis
    by (simp add: upgraded_def objectStoreNames_contains_def)
qed

lemma indexedDB_open_healthy:
  assumes "open_ok b" and "version e = 0 \<or> upgraded e"
  shows "\<exists>conn e'. indexedDB_open b e = Inr (conn, e')"
  using assms by (auto simp: indexedDB_open_def Let_def upgraded_def)

lemma consistent_fresh: "consistent fresh"
  by (simp add: consistent_def fresh_def)

lemma consistent_init: "consistent s \<Longrightarrow> consistent (snd (init b s))"
  by (auto simp: init_def consistent_def split: sum.splits dest: indexedDB_open_upgraded)

lemma consistent_ensure_open: "consistent s \<Longrightarrow> consistent (snd (ensure_open b s))"
  by (simp add: ensure_open_def consistent_init)

lemma consistent_write_store:
  "consistent s \<Longrightarrow> consistent (write_store c os s)"
  by (auto simp: consistent_def write_store_def upgraded_def contains_iff_map_of update_conv')

lemma consistent_getAll: "consistent s \<Longrightarrow> consistent (snd (getAll b c s))"
  using consistent_ensure_open [of s b]
  by (auto simp: getAll_def split: prod.splits sum.splits)

lemma consistent_put: "consistent s \<Longrightarrow> consistent (snd (put b c r s))"
  using consistent_ensure_open [of s b]
  by (auto simp: put_def consistent_write_store split: prod.splits sum.splits)

lemma consistent_delete: "consistent s \<Longrightarrow> consistent (snd (delete b c k s))"
  using consistent_ensure_open [of s b]
  by (auto simp: delete_def consistent_write_store split: prod.splits sum.splits)

lemma stores_onupgradeneeded:
  "map_of (stores (onupgradeneeded e)) c =
     (case map_of (stores e) c of
        Some os \<Rightarrow> Some os
      | None \<Rightarrow> if c = ''notes'' \<or> c = ''habits'' then Some [] else None)"
  by (auto simp: onupgradeneeded_def Let_def createObjectStore_def contains_iff_map_of
      map_add_def split: option.splits)

lemma records_init:
  assumes "init b s = (r, s1)"
  shows "records c s1 = records c s"
proof (cases "indexedDB_open b (indexedDB s)")
  case (Inl err)
  with assms show ?thesis by (simp add: init_def)
next
  case (Inr p)
  then obtain conn e' where p: "indexedDB_open b (indexedDB s) = Inr (conn, e')"
    by (cases p) simp
  then have "map_of (stores e') c = map_of (stores (indexedDB s)) c
      \<or> (map_of (stores e') c = Some [] \<and> map_of (stores (indexedDB s)) c = None)"
    by (auto simp: indexedDB_open_def Let_def stores_onupgradeneeded
        split: if_splits option.splits)
  moreover from p assms have "indexedDB s1 = e'"
    by (auto simp: init_def)
  ultimately show ?thesis
    by (auto simp: records_def store_getAll_def)
qed

lemma records_ensure_open:
  "ensure_open b s = (r, s1) \<Longrightarrow> records c s1 = records c s"
  by (auto simp: ensure_open_def records_init split: if_splits)

lemma ensure_open_succeeds:
  assumes "consistent s" and "open_ok b"
  shows "\<exists>s0. ensure_open b s = (Inr (), s0) \<and> db s0 \<noteq> None \<and> upgraded (indexedDB s0)"
proof (cases "db s")
  case None
  from assms have "\<exists>conn e'. indexedDB_open b (indexedDB s) = Inr (conn, e')"
    by (intro indexedDB_open_healthy) (auto simp: consistent_def)
  then obtain conn e' where op: "indexedDB_open b (indexedDB s) = Inr (conn, e')"
    by blast
  with assms(1) have "upgraded e'"
    by (auto simp: consistent_def dest: indexedDB_open_upgraded)
  with None op show ?thesis
    by (simp add: ensure_open_def init_def)
next
  case (Some conn)
  with assms(1) show ?thesis
    by (simp add: ensure_open_def consistent_def)
qed

lemma transaction_upgraded:
  assumes "db s \<noteq> None" and "upgraded (indexedDB s)" and "c \<in> {''notes'', ''habits''}"
  shows "\<exists>os. transaction s c = Inr os"
  using assms
  by (auto simp: transaction_def upgraded_def contains_iff_map_of split: option.splits)

lemma delete_succeeds:
  assumes "consistent s" and "c \<in> {''notes'', ''habits''}" and "open_ok b" and "request_ok b"
  shows "\<exists>s1. delete b c k s = (Inr (), s1)"
proof -
  from ensure_open_succeeds [OF assms(1,3)] obtain s0 where
    s0: "ensure_open b s = (Inr (), s0)" "db s0 \<noteq> None" "upgraded (indexedDB s0)"
    by blast
  from transaction_upgraded [OF s0(2,3) assms(2)] obtain os where "transaction s0 c = Inr os"
    by blast
  with s0(1) assms(4) show ?thesis
    by (simp add: delete_def)
qed

lemma put_succeeds:
  assumes "consistent s" and "c \<in> {''notes'', ''habits''}" and "open_ok b" and "request_ok b"
  shows "\<exists>s1. put b c r s = (Inr (), s1)"
proof -
  from ensure_open_succeeds [OF assms(1,3)] obtain s0 where
    s0: "ensure_open b s = (Inr (), s0)" "db s0 \<noteq> None" "upgraded (indexedDB s0)"
    by blast
  from transaction_upgraded [OF s0(2,3) assms(2)] obtain os where "transaction s0 c = Inr os"
    by blast
  with s0(1) assms(4) show ?thesis
    by (simp add: put_def)
qed

lemma getAll_succeeds:
  assumes "consistent s" and "c \<in> {''notes'', ''habits''}" and "open_ok b" and "request_ok b"
  shows "\<exists>s1. getAll b c s = (Inr (records c s), s1)"
proof -
  from ensure_open_succeeds [OF assms(1,3)] obtain s0 where
    s0: "ensure_open b s = (Inr (), s0)" "db s0 \<noteq> None" "upgraded (indexedDB s0)"
    by blast
  from transaction_upgraded [OF s0(2,3) assms(2)] obtain os where os: "transaction s0 c = Inr os"
    by blast
  have "records c s0 = records c s"
    using s0(1) by (rule records_ensure_open)
  with os have "store_getAll os = records c s"
    by (simp add: records_transaction)
  with s0(1) os assms(4) show ?thesis
    by (simp add: getAll_def)
qed

lemma transaction_NotInitialized: "transaction s c = Inl NotInitialized \<longleftrightarrow> db s = None"
  by (auto simp: transaction_def split: option.splits)

lemma ensure_open_error: "ensure_open b s = (Inl err, s1) \<Longrightarrow> err \<noteq> NotInitialized"
  by (auto simp: ensure_open_def init_def indexedDB_open_def Let_def split: if_splits)

lemma keys_store_put:
  "set (map keyPath_id (store_put r os)) = insert (keyPath_id r) (set (map keyPath_id os))"
  by (induction os) auto

lemma distinct_store_put:
  "distinct (map keyPath_id os) \<Longrightarrow> distinct (map keyPath_id (store_put r os))"
proof (induction os)
  case Nil
  then show ?case by simp
next
  case (Cons x xs)
  show ?case
  proof (cases "keyPath_id x = keyPath_id r")
    case True
    with Cons.prems show ?thesis by simp
  next
    case False
    from Cons have "distinct (map keyPath_id (store_put r xs))" by simp
    moreover from Cons.prems False have "keyPath_id x \<notin> set (map keyPath_id (store_put r xs))"
      unfolding keys_store_put by auto
    ultimately show ?thesis
      using False by simp
  qed
qed

lemma store_put_only:
  "distinct (map keyPath_id os) \<Longrightarrow> x \<in> set (store_put r os) \<Longrightarrow>
   keyPath_id x = keyPath_id r \<Longrightarrow> x = r"
proof (induction os)
  case Nil
  then show ?case by simp
next
  case (Cons y ys)
  show ?case
  proof (cases "keyPath_id y = keyPath_id r")
    case True
    with Cons.prems show ?thesis by (auto simp: image_iff)
  next
    case False
    with Cons show ?thesis by auto
  qed
qed

lemma distinct_store_delete:
  "distinct (map keyPath_id os) \<Longrightarrow> distinct (map keyPath_id (store_delete k os))"
  by (simp add: store_delete_def distinct_map_filter)

lemma unique_keys_fresh: "unique_keys fresh"
  by (simp add: unique_keys_def fresh_def)

lemma unique_keys_init:
  assumes "unique_keys s"
  shows "unique_keys (snd (init b s))"
proof (cases "indexedDB_open b (indexedDB s)")
  case (Inl err)
  with assms show ?thesis by (simp add: init_def)
next
  case (Inr p)
  then obtain conn e' where p: "indexedDB_open b (indexedDB s) = Inr (conn, e')"
    by (cases p) simp
  then have "map_of (stores e') c = map_of (stores (indexedDB s)) c
      \<or> map_of (stores e') c = Some []" for c
    by (auto simp: indexedDB_open_def Let_def stores_onupgradeneeded
        split: if_splits option.splits)
  moreover from p have "indexedDB (snd (init b s)) = e'"
    by (simp add: init_def)
  ultimately show ?thesis
    using assms unfolding unique_keys_def by (metis distinct.simps(1) list.simps(8) option.inject)
qed

lemma unique_keys_ensure_open: "unique_keys s \<Longrightarrow> unique_keys (snd (ensure_open b s))"
  by (simp add: ensure_open_def unique_keys_init)

lemma unique_keys_write_store:
  "unique_keys s \<Longrightarrow> distinct (map keyPath_id os) \<Longrightarrow> unique_keys (write_store c os s)"
  by (simp add: unique_keys_def write_store_def update_conv')

lemma unique_keys_transaction:
  "unique_keys s \<Longrightarrow> transaction s c = Inr os \<Longrightarrow> distinct (map keyPath_id os)"
  by (auto simp: unique_keys_def transaction_def split: option.splits)

lemma unique_keys_put: "unique_keys s \<Longrightarrow> unique_keys (snd (put b c r s))"
  using unique_keys_ensure_open [of s b]
  by (auto simp: put_def split: prod.splits sum.splits
      intro!: unique_keys_write_store distinct_store_put dest: unique_keys_transaction)

lemma unique_keys_delete: "unique_keys s \<Longrightarrow> unique_keys (snd (delete b c k s))"
  using unique_keys_ensure_open [of s b]
  by (auto simp: delete_def split: prod.splits sum.splits
      intro!: unique_keys_write_store distinct_store_delete dest: unique_keys_transaction)

lemma unique_keys_getAll: "unique_keys s \<Longrightarrow> unique_keys (snd (getAll b c s))"
  using unique_keys_ensure_open [of s b]
  by (auto simp: getAll_def split: prod.splits sum.splits)


subsection \<open>Writing and reading back\<close>

text \<open>
  Claim C1. A record written with \<^verbatim>\<open>put\<close> into a collection is among the records that
  an immediately following \<^verbatim>\<open>getAll\<close> of the same collection returns; that
  \<^verbatim>\<open>getAll\<close> does return, and leaves the state as it is, whenever the engine answers
  its request; and where keys are unique, the record is the only one returned under its
  id. On a consistent state, for the collections \<^verbatim>\<open>notes\<close> and \<^verbatim>\<open>habits\<close> and an
  engine that answers, the \<^verbatim>\<open>put\<close> succeeds.
\<close>

theorem put_then_getAll:
  "(\<forall>u s1. put b c r s = (Inr u, s1) \<and> request_ok b' \<longrightarrow>
      (\<exists>rs. getAll b' c s1 = (Inr rs, s1) \<and> r \<in> set rs
         \<and> (unique_keys s \<longrightarrow> (\<forall>x \<in> set rs. keyPath_id x = keyPath_id r \<longrightarrow> x = r))))
   \<and> (consistent s \<and> c \<in> {''notes'', ''habits''} \<and> open_ok b \<and> request_ok b \<longrightarrow>
        (\<exists>s1. put b c r s = (Inr (), s1)))"
proof (intro conjI allI impI)
  fix u s1
  assume a: "put b c r s = (Inr u, s1) \<and> request_ok b'"
  then obtain s0 os where
    eo: "ensure_open b s = (Inr (), s0)" and tr: "transaction s0 c = Inr os"
    and s1: "s1 = write_store c (store_put r os) s0"
    by (auto elim: put_success)
  have "db s1 \<noteq> None"
    using ensure_open_opened [OF eo] by (simp add: s1 db_write_store)
  moreover have "transaction s1 c = Inr (store_put r os)"
    unfolding s1 by (rule transaction_write_store [OF tr])
  ultimately have g: "getAll b' c s1 = (Inr (store_getAll (store_put r os)), s1)"
    using a by (intro getAll_opened) auto
  have only: "\<forall>x \<in> set (store_put r os). keyPath_id x = keyPath_id r \<longrightarrow> x = r"
    if "unique_keys s"
  proof -
    from that have "unique_keys s0"
      using unique_keys_ensure_open [of s b] eo by simp
    then have "distinct (map keyPath_id os)"
      using tr by (rule unique_keys_transaction)
    then show ?thesis
      by (blast dest: store_put_only)
  qed
  show "\<exists>rs. getAll b' c s1 = (Inr rs, s1) \<and> r \<in> set rs
      \<and> (unique_keys s \<longrightarrow> (\<forall>x \<in> set rs. keyPath_id x = keyPath_id r \<longrightarrow> x = r))"
    using g only by (simp add: set_store_getAll store_put_member)
next
  assume "consistent s \<and> c \<in> {''notes'', ''habits''} \<and> open_ok b \<and> request_ok b"
  then show "\<exists>s1. put b c r s = (Inr (), s1)"
    using put_succeeds [of s c b r] by blast
qed

text \<open>
  The scenario of the specification: on a profile that has no database yet,
  \<^verbatim>\<open>put("notes", {id:"a", title:"T", content:"C", createdAt:1000, synced:true})\<close> and
  then \<^verbatim>\<open>listAll("notes")\<close> give exactly that one record.
\<close>

theorem put_then_getAll_witness:
  "consistent fresh \<and> unique_keys fresh \<and> ''notes'' \<in> {''notes'', ''habits''}
   \<and> open_ok healthy \<and> request_ok healthy
   \<and> put healthy ''notes'' (StoredNote note_a) fresh
       = (Inr (), write_store ''notes'' [StoredNote note_a] opened)
   \<and> getAll healthy ''notes'' (write_store ''notes'' [StoredNote note_a] opened)
       = (Inr [StoredNote note_a], write_store ''notes'' [StoredNote note_a] opened)"
  using put_then_getAll [of healthy "''notes''" "StoredNote note_a" fresh healthy]
  by (simp add: put_def getAll_def ensure_open_def init_def indexedDB_open_def fresh_def
      healthy_def DB_VERSION_def onupgradeneeded_def objectStoreNames_contains_def
      createObjectStore_def transaction_def write_store_def store_getAll_def opened_def
      consistent_def unique_keys_def)


subsection \<open>Deleting\<close>

text \<open>
  Claim C2. After a \<^verbatim>\<open>delete\<close> of a key that succeeded, \<^verbatim>\<open>getAll\<close> of the same
  collection returns no record whose id is that key. And on a consistent state, for the
  collections \<^verbatim>\<open>notes\<close> and \<^verbatim>\<open>habits\<close> and an engine that answers, \<^verbatim>\<open>delete\<close>
  succeeds whether or not a record with that key exists; when none exists the records of
  the collection are what they were.
\<close>

theorem delete_then_getAll:
  "(\<forall>u s1. delete b c k s = (Inr u, s1) \<and> request_ok b' \<longrightarrow>
      (\<exists>rs. getAll b' c s1 = (Inr rs, s1) \<and> (\<forall>r \<in> set rs. keyPath_id r \<noteq> k)))
   \<and> (consistent s \<and> c \<in> {''notes'', ''habits''} \<and> open_ok b \<and> request_ok b \<longrightarrow>
        (\<exists>s1. delete b c k s = (Inr (), s1)
           \<and> (k \<notin> keyPath_id ` set (records c s) \<longrightarrow> records c s1 = records c s)))"
proof (intro conjI allI impI)
  fix u s1
  assume a: "delete b c k s = (Inr u, s1) \<and> request_ok b'"
  then obtain s0 os where
    eo: "ensure_open b s = (Inr (), s0)" and tr: "transaction s0 c = Inr os"
    and s1: "s1 = write_store c (store_delete k os) s0"
    by (auto elim: delete_success)
  have "db s1 \<noteq> None"
    using ensure_open_opened [OF eo] by (simp add: s1 db_write_store)
  moreover have "transaction s1 c = Inr (store_delete k os)"
    unfolding s1 by (rule transaction_write_store [OF tr])
  ultimately have "getAll b' c s1 = (Inr (store_getAll (store_delete k os)), s1)"
    using a by (intro getAll_opened) auto
  then show "\<exists>rs. getAll b' c s1 = (Inr rs, s1) \<and> (\<forall>r \<in> set rs. keyPath_id r \<noteq> k)"
    by (auto simp: set_store_getAll dest: store_delete_keys)
next
  assume a: "consistent s \<and> c \<in> {''notes'', ''habits''} \<and> open_ok b \<and> request_ok b"
  then obtain s1 where d: "delete b c k s = (Inr (), s1)"
    using delete_succeeds [of s c b k] by blast
  then obtain s0 os where
    eo: "ensure_open b s = (Inr (), s0)" and tr: "transaction s0 c = Inr os"
    and s1: "s1 = write_store c (store_delete k os) s0"
    by (auto elim: delete_success)
  have r0: "records c s = store_getAll os"
    using records_ensure_open [OF eo, of c] records_transaction [OF tr] by simp
  have r1: "records c s1 = store_getAll (store_delete k os)"
    unfolding s1 by (rule records_write_store [OF tr])
  have "k \<notin> keyPath_id ` set (records c s) \<longrightarrow> records c s1 = records c s"
    by (simp add: r0 r1 set_store_getAll store_delete_absent)
  with d show "\<exists>s1. delete b c k s = (Inr (), s1)
      \<and> (k \<notin> keyPath_id ` set (records c s) \<longrightarrow> records c s1 = records c s)"
    by blast
qed

text \<open>
  Deleting the note \<^verbatim>\<open>a\<close> from a store of two notes leaves the other one; deleting a
  key that is not there succeeds and leaves the state as it is.
\<close>

lemma two_notes_reached:
  "two_notes = snd (put healthy ''notes'' (StoredNote note_a)
                 (snd (put healthy ''notes'' (StoredNote note_b) fresh)))"
  by (simp add: two_notes_def put_def ensure_open_def init_def indexedDB_open_def fresh_def
      healthy_def DB_VERSION_def onupgradeneeded_def objectStoreNames_contains_def
      createObjectStore_def transaction_def write_store_def note_a_def note_b_def)

theorem delete_then_getAll_witness:
  "delete healthy ''notes'' ''a'' two_notes
     = (Inr (), write_store ''notes'' [StoredNote note_b] two_notes)
   \<and> request_ok healthy
   \<and> getAll healthy ''notes'' (write_store ''notes'' [StoredNote note_b] two_notes)
     = (Inr [StoredNote note_b], write_store ''notes'' [StoredNote note_b] two_notes)
   \<and> consistent two_notes \<and> ''notes'' \<in> {''notes'', ''habits''} \<and> open_ok healthy
   \<and> ''zz'' \<notin> keyPath_id ` set (records ''notes'' two_notes)
   \<and> delete healthy ''notes'' ''zz'' two_notes = (Inr (), two_notes)"
  using delete_then_getAll [of healthy "''notes''" "''a''" two_notes healthy]
    delete_then_getAll [of healthy "''notes''" "''zz''" two_notes healthy]
  by (simp add: two_notes_def delete_def getAll_def ensure_open_def healthy_def
      transaction_def write_store_def note_a_def note_b_def store_delete_def store_getAll_def
      consistent_def upgraded_def DB_VERSION_def objectStoreNames_contains_def records_def)


subsection \<open>Calling init again\<close>

text \<open>
  \<^verbatim>\<open>init\<close> has no test of \<^verbatim>\<open>this.db\<close>: called on an open service it opens the
  database once more and stores the new connection in place of the old one.
\<close>

theorem init_again_counterexample:
  "db opened = Some 0
   \<and> init healthy opened
       = (Inr (), opened\<lparr>db := Some 1, indexedDB := (indexedDB opened)\<lparr>next_conn := 2\<rparr>\<rparr>)
   \<and> snd (init healthy opened) \<noteq> opened"
  by (simp add: opened_def init_def indexedDB_open_def fresh_def
      healthy_def DB_VERSION_def onupgradeneeded_def objectStoreNames_contains_def
      createObjectStore_def)

text \<open>
  Claim C8, as the code has it. When \<^verbatim>\<open>init\<close> is called on a service that is already
  open, the object stores with all their records and the version stay as they are and the
  state stays consistent. If the engine refuses the open, the call is rejected and nothing
  changes at all; otherwise the handle is replaced by the connection the engine just made.
  In both cases the service still holds a handle.
\<close>

theorem init_again:
  assumes "db s \<noteq> None" and "consistent s" and "init b s = (r, s1)"
  shows "stores (indexedDB s1) = stores (indexedDB s)
       \<and> version (indexedDB s1) = version (indexedDB s)
       \<and> consistent s1
       \<and> (case r of
            Inl err \<Rightarrow> s1 = s
          | Inr u \<Rightarrow> db s1 = Some (next_conn (indexedDB s)) \<and>
                     next_conn (indexedDB s1) = Suc (next_conn (indexedDB s)))"
proof -
  from assms(1,2) have up: "upgraded (indexedDB s)"
    by (simp add: consistent_def)
  then have v: "\<not> version (indexedDB s) < DB_VERSION" "\<not> DB_VERSION < version (indexedDB s)"
    by (simp_all add: upgraded_def)
  have c1: "consistent s1"
    using consistent_init [OF assms(2), of b] assms(3) by simp
  show ?thesis
  proof (cases "open_ok b")
    case True
    with v assms(3) have "r = Inr ()"
      and "s1 = s\<lparr>db := Some (next_conn (indexedDB s)),
                   indexedDB := (indexedDB s)\<lparr>next_conn := Suc (next_conn (indexedDB s))\<rparr>\<rparr>"
      by (auto simp: init_def indexedDB_open_def Let_def)
    with c1 show ?thesis by simp
  next
    case False
    with assms(3) have "r = Inl OpenError" and "s1 = s"
      by (auto simp: init_def indexedDB_open_def)
    with c1 show ?thesis by simp
  qed
qed

theorem init_again_witness:
  "db opened \<noteq> None \<and> consistent opened
   \<and> init healthy opened
       = (Inr (), opened\<lparr>db := Some 1, indexedDB := (indexedDB opened)\<lparr>next_conn := 2\<rparr>\<rparr>)
   \<and> stores (indexedDB (opened\<lparr>db := Some 1, indexedDB := (indexedDB opened)\<lparr>next_conn := 2\<rparr>\<rparr>))
       = stores (indexedDB opened)"
  using init_again [of opened healthy "Inr ()"
      "opened\<lparr>db := Some 1, indexedDB := (indexedDB opened)\<lparr>next_conn := 2\<rparr>\<rparr>"]
  by (simp add: opened_def init_def indexedDB_open_def fresh_def consistent_def upgraded_def
      healthy_def DB_VERSION_def onupgradeneeded_def objectStoreNames_contains_def
      createObjectStore_def)


subsection \<open>No operation meets an absent handle\<close>

text \<open>
  What \<^verbatim>\<open>if (!this.db) await this.init();\<close> leaves behind: when it is rejected, the
  handle was absent, \<^verbatim>\<open>init\<close> was called and rejected with that error, and nothing has
  changed; an operation that resolves holds a handle afterwards, and one that ends
  without a handle is the rejection of \<^verbatim>\<open>init\<close>.
\<close>

lemma ensure_open_rejected:
  assumes "ensure_open b s = (Inl err, s1)"
  shows "db s = None \<and> s1 = s \<and> init b s = (Inl err, s) \<and> err \<noteq> NotInitialized"
  using assms
  by (auto simp: ensure_open_def init_def indexedDB_open_def Let_def split: if_splits)

lemma getAll_handle:
  "(\<forall>rs s1. getAll b c s = (Inr rs, s1) \<longrightarrow> db s1 \<noteq> None)
   \<and> (db (snd (getAll b c s)) = None \<longrightarrow>
        db s = None \<and> (\<exists>err. init b s = (Inl err, s) \<and> getAll b c s = (Inl err, s)))"
  by (cases "ensure_open b s")
    (auto simp: getAll_def split: sum.splits if_splits
      dest: ensure_open_rejected ensure_open_opened)

lemma put_handle:
  "(\<forall>u s1. put b c r s = (Inr u, s1) \<longrightarrow> db s1 \<noteq> None)
   \<and> (db (snd (put b c r s)) = None \<longrightarrow>
        db s = None \<and> (\<exists>err. init b s = (Inl err, s) \<and> put b c r s = (Inl err, s)))"
  by (cases "ensure_open b s")
    (auto simp: put_def db_write_store split: sum.splits if_splits
      dest: ensure_open_rejected ensure_open_opened)

lemma delete_handle:
  "(\<forall>u s1. delete b c k s = (Inr u, s1) \<longrightarrow> db s1 \<noteq> None)
   \<and> (db (snd (delete b c k s)) = None \<longrightarrow>
        db s = None \<and> (\<exists>err. init b s = (Inl err, s) \<and> delete b c k s = (Inl err, s)))"
  by (cases "ensure_open b s")
    (auto simp: delete_def db_write_store split: sum.splits if_splits
      dest: ensure_open_rejected ensure_open_opened)

text \<open>
  Claim C9. Each of \<^verbatim>\<open>getAll\<close>, \<^verbatim>\<open>put\<close> and \<^verbatim>\<open>delete\<close> opens the database
  before it goes on. Whenever the opening step succeeds the handle is present, so the
  transaction does not take the branch of the absent handle, and no operation is ever
  rejected with \<open>NotInitialized\<close>, in any state and whatever the engine answers. Every
  operation that resolves leaves the service with a handle. If the service is open
  already, or \<^verbatim>\<open>init\<close> succeeds, every operation leaves it with a handle, resolved or
  not. And an operation leaves it without one only when there was none and \<^verbatim>\<open>init\<close>
  was rejected: then all three operations are rejected with the error of \<^verbatim>\<open>init\<close>
  and change nothing.
\<close>

theorem never_NotInitialized:
  "(\<forall>u s1. ensure_open b s = (Inr u, s1) \<longrightarrow> db s1 \<noteq> None \<and> transaction s1 c \<noteq> Inl NotInitialized)
   \<and> fst (getAll b c s) \<noteq> Inl NotInitialized
   \<and> fst (put b c r s) \<noteq> Inl NotInitialized
   \<and> fst (delete b c k s) \<noteq> Inl NotInitialized
   \<and> (\<forall>rs s1. getAll b c s = (Inr rs, s1) \<longrightarrow> db s1 \<noteq> None)
   \<and> (\<forall>u s1. put b c r s = (Inr u, s1) \<longrightarrow> db s1 \<noteq> None)
   \<and> (\<forall>u s1. delete b c k s = (Inr u, s1) \<longrightarrow> db s1 \<noteq> None)
   \<and> (db s \<noteq> None \<or> (\<exists>s0. init b s = (Inr (), s0)) \<longrightarrow>
        db (snd (getAll b c s)) \<noteq> None
        \<and> db (snd (put b c r s)) \<noteq> None
        \<and> db (snd (delete b c k s)) \<noteq> None)
   \<and> (db (snd (getAll b c s)) = None \<or> db (snd (put b c r s)) = None
        \<or> db (snd (delete b c k s)) = None \<longrightarrow>
        db s = None
        \<and> (\<exists>err. init b s = (Inl err, s) \<and> err \<noteq> NotInitialized
              \<and> getAll b c s = (Inl err, s)
              \<and> put b c r s = (Inl err, s)
              \<and> delete b c k s = (Inl err, s)))"
proof -
  have eo: "db s1 \<noteq> None \<and> transaction s1 c \<noteq> Inl NotInitialized"
    if "ensure_open b s = (Inr u, s1)" for u s1
    using ensure_open_opened [OF that] by (simp add: transaction_NotInitialized)
  have g: "fst (getAll b c s) \<noteq> Inl NotInitialized"
    by (auto simp: getAll_def transaction_NotInitialized
        split: prod.splits sum.splits dest: ensure_open_error ensure_open_opened)
  have p: "fst (put b c r s) \<noteq> Inl NotInitialized"
    by (auto simp: put_def transaction_NotInitialized
        split: prod.splits sum.splits dest: ensure_open_error ensure_open_opened)
  have d: "fst (delete b c k s) \<noteq> Inl NotInitialized"
    by (auto simp: delete_def transaction_NotInitialized
        split: prod.splits sum.splits dest: ensure_open_error ensure_open_opened)
  note gh = getAll_handle [of b c s] and ph = put_handle [of b c r s]
    and dh = delete_handle [of b c k s]
  have rejected: "\<exists>err. init b s = (Inl err, s) \<and> err \<noteq> NotInitialized
      \<and> getAll b c s = (Inl err, s) \<and> put b c r s = (Inl err, s)
      \<and> delete b c k s = (Inl err, s)"
    if "db s = None" and "init b s = (Inl err0, s)" for err0
  proof -
    from that have e: "ensure_open b s = (Inl err0, s)"
      by (simp add: ensure_open_def)
    then have "err0 \<noteq> NotInitialized"
      by (rule ensure_open_error)
    with that e show ?thesis
      by (simp add: getAll_def put_def delete_def)
  qed
  have absent: "db s = None \<and> (\<exists>err. init b s = (Inl err, s) \<and> err \<noteq> NotInitialized
      \<and> getAll b c s = (Inl err, s) \<and> put b c r s = (Inl err, s)
      \<and> delete b c k s = (Inl err, s))"
    if "db (snd (getAll b c s)) = None \<or> db (snd (put b c r s)) = None
        \<or> db (snd (delete b c k s)) = None"
    using that gh ph dh rejected by blast
  have present: "db (snd (getAll b c s)) \<noteq> None \<and> db (snd (put b c r s)) \<noteq> None
        \<and> db (snd (delete b c k s)) \<noteq> None"
    if "db s \<noteq> None \<or> (\<exists>s0. init b s = (Inr (), s0))"
    using that absent by fastforce
  show ?thesis
    using eo g p d gh ph dh present absent by blast
qed

text \<open>
  On a new profile with an engine that answers, each operation opens the database and
  resolves with connection 0 in the handle; with an engine that refuses to open, each is
  rejected with the open error.
\<close>

theorem never_NotInitialized_witness:
  "db fresh = None
   \<and> init healthy fresh = (Inr (), opened)
   \<and> ensure_open healthy fresh = (Inr (), opened)
   \<and> db opened = Some 0
   \<and> put healthy ''notes'' (StoredNote note_a) fresh
       = (Inr (), write_store ''notes'' [StoredNote note_a] opened)
   \<and> db (write_store ''notes'' [StoredNote note_a] opened) = Some 0
   \<and> getAll healthy ''notes'' fresh = (Inr [], opened)
   \<and> delete healthy ''notes'' ''a'' fresh = (Inr (), write_store ''notes'' [] opened)
   \<and> init blocked fresh = (Inl OpenError, fresh)
   \<and> db (snd (getAll blocked ''notes'' fresh)) = None
   \<and> getAll blocked ''notes'' fresh = (Inl OpenError, fresh)
   \<and> put blocked ''notes'' (StoredNote note_a) fresh = (Inl OpenError, fresh)
   \<and> delete blocked ''notes'' ''a'' fresh = (Inl OpenError, fresh)"
  using never_NotInitialized [of healthy fresh "''notes''" "StoredNote note_a" "''a''"]
    never_NotInitialized [of blocked fresh "''notes''" "StoredNote note_a" "''a''"]
  by (simp add: opened_def ensure_open_def init_def indexedDB_open_def fresh_def
      healthy_def blocked_def DB_VERSION_def onupgradeneeded_def objectStoreNames_contains_def
      createObjectStore_def getAll_def put_def delete_def transaction_def write_store_def
      store_getAll_def store_delete_def note_a_def)


section \<open>Properties of the habit handlers\<close>

subsection \<open>The streak counts the completed days\<close>

lemma streak_toggleDay: "streak_is_count (toggleDay d h)"
  by (simp add: streak_is_count_def toggleDay_def Let_def)

lemma streak_toggleHabits:
  "\<forall>h \<in> set hs. streak_is_count h \<Longrightarrow> \<forall>h \<in> set (toggleHabits d k hs). streak_is_count h"
  by (auto simp: toggleHabits_def streak_toggleDay)

lemma set_store_put: "set (store_put r os) \<subseteq> insert r (set os)"
  by (induction os) auto

lemma records_write_store_other:
  "c' \<noteq> c \<Longrightarrow> records c' (write_store c os s) = records c' s"
  by (simp add: records_def write_store_def update_conv')

lemma records_put:
  "set (records c' (snd (put b c r s))) \<subseteq> insert r (set (records c' s))"
proof (cases "ensure_open b s")
  case (Pair res s0)
  note eo = this
  have r0: "records c' s0 = records c' s"
    using eo by (rule records_ensure_open)
  show ?thesis
  proof (cases "\<exists>os. res = Inr () \<and> transaction s0 c = Inr os \<and> request_ok b")
    case False
    with eo have "snd (put b c r s) = s0"
      by (auto simp: put_def split: sum.splits)
    with r0 show ?thesis by auto
  next
    case True
    then obtain os where os: "res = Inr ()" "transaction s0 c = Inr os" "request_ok b"
      by blast
    with eo have p: "snd (put b c r s) = write_store c (store_put r os) s0"
      by (simp add: put_def)
    show ?thesis
    proof (cases "c' = c")
      case True
      have "set (records c' s) = set os"
        using records_transaction [OF os(2)] r0 True by (metis set_store_getAll)
      moreover have "set (records c' (snd (put b c r s))) = set (store_put r os)"
        using records_write_store [OF os(2), of "store_put r os"] True p
        by (simp add: set_store_getAll)
      ultimately show ?thesis
        using set_store_put [of r os] by simp
    next
      case False
      with p r0 show ?thesis
        by (auto simp: records_write_store_other)
    qed
  qed
qed

lemma stored_ok_put:
  assumes "stored_ok s" and "\<forall>h. r = StoredHabit h \<longrightarrow> streak_is_count h"
  shows "stored_ok (snd (put b c r s))"
  unfolding stored_ok_def
proof (intro allI impI)
  fix c' h assume "StoredHabit h \<in> set (records c' (snd (put b c r s)))"
  with records_put [of c' b c r s] have "StoredHabit h = r \<or> StoredHabit h \<in> set (records c' s)"
    by auto
  with assms show "streak_is_count h"
    by (auto simp: stored_ok_def)
qed

lemma stored_ok_saveHabit:
  assumes "saveHabit b h s = (res, s1)" and "stored_ok s" and "streak_is_count h"
  shows "stored_ok s1"
  using stored_ok_put [of s "StoredHabit h" b "''habits''"] assms
  by (simp add: saveHabit_def)

lemma getAll_result:
  assumes "getAll b c s = (Inr rs, s1)"
  shows "rs = records c s1"
  using assms
  by (auto simp: getAll_def records_transaction split: prod.splits sum.splits if_splits)

lemma records_getAll: "records c' (snd (getAll b c s)) = records c' s"
  by (cases "ensure_open b s")
    (auto simp: getAll_def records_ensure_open split: prod.splits sum.splits if_splits)

lemma stored_ok_getAll: "stored_ok s \<Longrightarrow> stored_ok (snd (getAll b c s))"
  by (simp add: stored_ok_def records_getAll)

lemma stored_ok_init: "stored_ok s \<Longrightarrow> stored_ok (snd (init b s))"
  using records_init [of b s "fst (init b s)" "snd (init b s)"]
  by (simp add: stored_ok_def)

lemma set_as_habits: "set (as_habits rs) = {h. StoredHabit h \<in> set rs}"
  by (induction rs rule: as_habits.induct) auto

lemma app_ok_loadData:
  assumes "app_ok a"
  shows "app_ok (snd (loadData b a))"
proof -
  let ?s1 = "snd (init b (dbService a))"
  let ?s2 = "snd (getAllNotes b ?s1)"
  let ?s3 = "snd (getAllHabits b ?s2)"
  from assms have ok1: "stored_ok ?s1"
    by (simp add: app_ok_def stored_ok_init)
  then have ok2: "stored_ok ?s2"
    by (simp add: getAllNotes_def stored_ok_getAll)
  then have ok3: "stored_ok ?s3"
    by (simp add: getAllHabits_def stored_ok_getAll)
  have fetched: "\<forall>h \<in> set (as_habits rs). streak_is_count h"
    if "getAllHabits b ?s2 = (Inr rs, s3)" for rs s3
  proof -
    from that have "rs = records ''habits'' s3" and "s3 = ?s3"
      by (auto simp: getAllHabits_def dest: getAll_result)
    with ok3 show ?thesis
      by (auto simp: set_as_habits stored_ok_def)
  qed
  show ?thesis
    using assms ok1 ok2 ok3 fetched
    by (cases "init b (dbService a)"; cases "getAllNotes b ?s1"; cases "getAllHabits b ?s2")
      (auto simp: loadData_def app_ok_def split: sum.splits)
qed

lemma app_ok_createHabit:
  assumes "app_ok a"
  shows "app_ok (snd (createHabit b uuid answer a))"
proof -
  have new: "streak_is_count \<lparr>habit_id = uuid, name = nm, completedDays = [], streak = 0\<rparr>" for nm
    by (simp add: streak_is_count_def)
  from assms have "stored_ok (dbService a)"
    by (simp add: app_ok_def)
  with assms new show ?thesis
    by (auto simp: createHabit_def Let_def app_ok_def
        split: option.splits prod.splits sum.splits dest: stored_ok_saveHabit)
qed

lemma app_ok_handleToggleHabit:
  assumes "app_ok a"
  shows "app_ok (snd (handleToggleHabit b d k a))"
proof -
  let ?new = "toggleHabits d k (habits a)"
  from assms have new: "\<forall>h \<in> set ?new. streak_is_count h"
    by (intro streak_toggleHabits) (simp add: app_ok_def)
  have found: "streak_is_count u"
    if "find (\<lambda>h. habit_id h = k) ?new = Some u" for u
  proof -
    from that have "u \<in> set ?new"
      by (auto simp: find_Some_iff)
    with new show ?thesis by blast
  qed
  from assms have "stored_ok (dbService a)"
    by (simp add: app_ok_def)
  with assms new found show ?thesis
    by (auto simp: handleToggleHabit_def Let_def app_ok_def
        split: option.splits prod.splits sum.splits dest: stored_ok_saveHabit)
qed

lemma app_ok_handle: "app_ok a \<Longrightarrow> app_ok (handle ev a)"
  by (cases ev) (simp_all add: app_ok_loadData app_ok_createHabit app_ok_handleToggleHabit)

lemma app_ok_run: "app_ok a \<Longrightarrow> app_ok (run evs a)"
  by (induction evs arbitrary: a) (simp_all add: app_ok_handle)

lemma app_ok_first_start: "app_ok first_start"
  by (simp add: app_ok_def first_start_def stored_ok_def records_def fresh_def)

text \<open>
  Claim C4. The habit that a toggle produces has a \<^verbatim>\<open>streak\<close> equal to the number of
  its \<^verbatim>\<open>completedDays\<close>; and after any run of the program's habit operations (loading,
  creating, toggling, with any answers of the engine) from the first start, so has every
  habit on screen and every habit in the habit store.
\<close>

theorem streak_counts_completedDays:
  "streak (toggleDay d h0) = length (completedDays (toggleDay d h0))
   \<and> (\<forall>h \<in> set (habits (run evs first_start)). streak h = length (completedDays h))
   \<and> (\<forall>h. StoredHabit h \<in> set (records ''habits'' (dbService (run evs first_start)))
          \<longrightarrow> streak h = length (completedDays h))"
  using app_ok_run [OF app_ok_first_start, of evs] streak_toggleDay [of d h0]
  by (auto simp: app_ok_def stored_ok_def streak_is_count_def)

lemma example_run_habits:
  "habits (run example_run first_start)
     = [\<lparr>habit_id = ''h1'', name = ''Run'', completedDays = [''2024-01-01''], streak = 1\<rparr>]"
  by (simp add: Let_def example_run_def first_start_def loadData_def createHabit_def handleToggleHabit_def
      getAllNotes_def getAllHabits_def saveHabit_def toggleHabits_def toggleDay_def
      put_def getAll_def ensure_open_def init_def indexedDB_open_def fresh_def
      healthy_def DB_VERSION_def onupgradeneeded_def objectStoreNames_contains_def
      createObjectStore_def transaction_def write_store_def store_getAll_def)

theorem streak_counts_completedDays_witness:
  "\<lparr>habit_id = ''h1'', name = ''Run'', completedDays = [''2024-01-01''], streak = 1\<rparr>
     \<in> set (habits (run example_run first_start))
   \<and> StoredHabit \<lparr>habit_id = ''h1'', name = ''Run'', completedDays = [''2024-01-01''], streak = 1\<rparr>
     \<in> set (records ''habits'' (dbService (run example_run first_start)))
   \<and> streak \<lparr>habit_id = ''h1'', name = ''Run'', completedDays = [''2024-01-01''], streak = 1\<rparr>
     = length (completedDays
         \<lparr>habit_id = ''h1'', name = ''Run'', completedDays = [''2024-01-01''], streak = 1\<rparr>)"
  using streak_counts_completedDays [of "''2024-01-01''" habit_x example_run]
  by (simp add: Let_def example_run_def first_start_def loadData_def createHabit_def handleToggleHabit_def
      getAllNotes_def getAllHabits_def saveHabit_def toggleHabits_def toggleDay_def
      put_def getAll_def ensure_open_def init_def indexedDB_open_def fresh_def
      healthy_def DB_VERSION_def onupgradeneeded_def objectStoreNames_contains_def
      createObjectStore_def transaction_def write_store_def store_getAll_def records_def)


subsection \<open>What a toggle leaves alone\<close>

lemma toggleDay_frame: "habit_id (toggleDay d h) = habit_id h \<and> name (toggleDay d h) = name h"
  by (simp add: toggleDay_def Let_def)

lemma toggleHabits_frame:
  "length (toggleHabits d k hs) = length hs
   \<and> (\<forall>i < length hs.
        habit_id (toggleHabits d k hs ! i) = habit_id (hs ! i)
        \<and> name (toggleHabits d k hs ! i) = name (hs ! i)
        \<and> (habit_id (hs ! i) \<noteq> k \<longrightarrow> toggleHabits d k hs ! i = hs ! i))"
  by (simp add: toggleHabits_def toggleDay_frame)

lemma habits_handleToggleHabit:
  "habits (snd (handleToggleHabit b d k a)) = toggleHabits d k (habits a)
   \<or> habits (snd (handleToggleHabit b d k a)) = habits a"
  by (auto simp: handleToggleHabit_def Let_def split: option.splits prod.splits sum.splits)

text \<open>
  Claim C10. \<^verbatim>\<open>handleToggleHabit\<close> keeps the length of the habit list; at every
  position the id and the name stay as they were, and a habit whose id is not the toggled
  one stays as it was altogether.
\<close>

theorem handleToggleHabit_frame:
  "length (habits (snd (handleToggleHabit b d k a))) = length (habits a)
   \<and> (\<forall>i < length (habits a).
        habit_id (habits (snd (handleToggleHabit b d k a)) ! i) = habit_id (habits a ! i)
        \<and> name (habits (snd (handleToggleHabit b d k a)) ! i) = name (habits a ! i)
        \<and> (habit_id (habits a ! i) \<noteq> k \<longrightarrow>
             habits (snd (handleToggleHabit b d k a)) ! i = habits a ! i))"
  using habits_handleToggleHabit [of b d k a] toggleHabits_frame [of d k "habits a"]
  by auto

theorem handleToggleHabit_frame_witness:
  "habits (snd (handleToggleHabit healthy ''2024-01-03'' ''h2'' two_habits))
     = [habit_x,
        \<lparr>habit_id = ''h2'', name = ''Read'', completedDays = [''2024-01-03''], streak = 1\<rparr>]
   \<and> (0::nat) < length (habits two_habits)
   \<and> habit_id (habits two_habits ! 0) \<noteq> ''h2''
   \<and> habits (snd (handleToggleHabit healthy ''2024-01-03'' ''h2'' two_habits)) ! 0
     = habits two_habits ! 0"
  using handleToggleHabit_frame [of healthy "''2024-01-03''" "''h2''" two_habits]
  by (simp add: Let_def two_habits_def habit_x_def handleToggleHabit_def
      saveHabit_def toggleHabits_def toggleDay_def
      put_def ensure_open_def init_def indexedDB_open_def fresh_def
      healthy_def DB_VERSION_def onupgradeneeded_def objectStoreNames_contains_def
      createObjectStore_def transaction_def write_store_def)


subsection \<open>Toggling a day twice\<close>

text \<open>
  The first toggle of a recorded day removes every entry of it, the second appends the
  day at the end; the other way round, the day is appended and removed again.
\<close>

lemma completedDays_toggleDay:
  "completedDays (toggleDay d h) =
     (if d \<in> set (completedDays h) then filter (\<lambda>x. x \<noteq> d) (completedDays h)
      else completedDays h @ [d])"
  by (simp add: toggleDay_def Let_def)

lemma filter_neq_id: "d \<notin> set xs \<Longrightarrow> filter (\<lambda>x. x \<noteq> d) xs = xs"
  by (induction xs) auto

lemma toggle_twice_set:
  "set (completedDays (toggleDay d (toggleDay d h))) = set (completedDays h)"
  by (auto simp: completedDays_toggleDay)

lemma toggle_twice_array:
  "completedDays (toggleDay d (toggleDay d h)) = completedDays h
     \<longleftrightarrow> d \<notin> set (completedDays h)
         \<or> (\<exists>ds. completedDays h = ds @ [d] \<and> d \<notin> set ds)"
proof (cases "d \<in> set (completedDays h)")
  case False
  then show ?thesis
    by (simp add: completedDays_toggleDay filter_neq_id)
next
  case True
  let ?f = "filter (\<lambda>x. x \<noteq> d) (completedDays h)"
  from True have twice: "completedDays (toggleDay d (toggleDay d h)) = ?f @ [d]"
    by (simp add: completedDays_toggleDay)
  have "?f @ [d] = completedDays h
      \<longleftrightarrow> (\<exists>ds. completedDays h = ds @ [d] \<and> d \<notin> set ds)"
  proof
    assume "?f @ [d] = completedDays h"
    then have "completedDays h = ?f @ [d] \<and> d \<notin> set ?f" by simp
    then show "\<exists>ds. completedDays h = ds @ [d] \<and> d \<notin> set ds" by blast
  next
    assume "\<exists>ds. completedDays h = ds @ [d] \<and> d \<notin> set ds"
    then obtain ds where "completedDays h = ds @ [d]" "d \<notin> set ds" by blast
    then show "?f @ [d] = completedDays h"
      by (simp add: filter_neq_id)
  qed
  then show ?thesis
    using True twice by simp
qed

lemma latest_day_is_last:
  fixes d :: string
  assumes "sorted_wrt (<) xs" and "d \<in> set xs" and "\<forall>x \<in> set xs. x \<le> d"
  shows "\<exists>ds. xs = ds @ [d] \<and> d \<notin> set ds"
proof -
  from assms(2) obtain ys zs where xs: "xs = ys @ d # zs"
    by (auto simp: in_set_conv_decomp)
  from assms(1) have after: "\<forall>z \<in> set zs. d < z" and before: "\<forall>y \<in> set ys. y < d"
    by (auto simp: xs sorted_wrt_append)
  have "zs = []"
  proof (cases zs)
    case Nil
    then show ?thesis .
  next
    case (Cons z zs')
    with after have "d < z" by simp
    moreover from assms(3) Cons have "z \<le> d" by (simp add: xs)
    ultimately show ?thesis by simp
  qed
  moreover from before have "d \<notin> set ys" by auto
  ultimately show ?thesis
    using xs by simp
qed

lemma days_within_toggleDay:
  assumes "days_within B h" and "\<forall>x \<in> B. x \<le> d"
  shows "days_within (insert d B) (toggleDay d h)"
proof (cases "d \<in> set (completedDays h)")
  case True
  with assms(1) show ?thesis
    by (auto simp: days_within_def completedDays_toggleDay sorted_wrt_filter)
next
  case False
  from assms have "\<forall>x \<in> set (completedDays h). x \<le> d"
    by (auto simp: days_within_def)
  with False have "\<forall>x \<in> set (completedDays h). x < d"
    by (metis order_le_imp_less_or_eq)
  with assms(1) False show ?thesis
    by (auto simp: days_within_def completedDays_toggleDay sorted_wrt_append)
qed

lemma days_within_mono: "days_within B h \<Longrightarrow> B \<subseteq> B' \<Longrightarrow> days_within B' h"
  by (auto simp: days_within_def)

lemma stored_all_put:
  assumes "stored_all P s" and "\<forall>h. r = StoredHabit h \<longrightarrow> P h"
  shows "stored_all P (snd (put b c r s))"
  unfolding stored_all_def
proof (intro allI impI)
  fix c' h assume "StoredHabit h \<in> set (records c' (snd (put b c r s)))"
  with records_put [of c' b c r s] have "StoredHabit h = r \<or> StoredHabit h \<in> set (records c' s)"
    by auto
  with assms show "P h"
    by (auto simp: stored_all_def)
qed

lemma stored_all_saveHabit:
  assumes "saveHabit b h s = (res, s1)" and "stored_all P s" and "P h"
  shows "stored_all P s1"
  using stored_all_put [of P s "StoredHabit h" b "''habits''"] assms
  by (simp add: saveHabit_def)

lemma stored_all_getAll: "stored_all P s \<Longrightarrow> stored_all P (snd (getAll b c s))"
  by (simp add: stored_all_def records_getAll)

lemma stored_all_init: "stored_all P s \<Longrightarrow> stored_all P (snd (init b s))"
  using records_init [of b s "fst (init b s)" "snd (init b s)"]
  by (simp add: stored_all_def)

lemma stored_all_mono: "stored_all P s \<Longrightarrow> \<forall>h. P h \<longrightarrow> Q h \<Longrightarrow> stored_all Q s"
  by (auto simp: stored_all_def)

lemma app_all_loadData:
  assumes "app_all P a"
  shows "app_all P (snd (loadData b a))"
proof -
  let ?s1 = "snd (init b (dbService a))"
  let ?s2 = "snd (getAllNotes b ?s1)"
  let ?s3 = "snd (getAllHabits b ?s2)"
  from assms have ok1: "stored_all P ?s1"
    by (simp add: app_all_def stored_all_init)
  then have ok2: "stored_all P ?s2"
    by (simp add: getAllNotes_def stored_all_getAll)
  then have ok3: "stored_all P ?s3"
    by (simp add: getAllHabits_def stored_all_getAll)
  have fetched: "\<forall>h \<in> set (as_habits rs). P h"
    if "getAllHabits b ?s2 = (Inr rs, s3)" for rs s3
  proof -
    from that have "rs = records ''habits'' s3" and "s3 = ?s3"
      by (auto simp: getAllHabits_def dest: getAll_result)
    with ok3 show ?thesis
      by (auto simp: set_as_habits stored_all_def)
  qed
  show ?thesis
    using assms ok1 ok2 ok3 fetched
    by (cases "init b (dbService a)"; cases "getAllNotes b ?s1"; cases "getAllHabits b ?s2")
      (auto simp: loadData_def app_all_def split: sum.splits)
qed

lemma app_all_createHabit:
  assumes "app_all P a"
    and "\<forall>nm. P \<lparr>habit_id = uuid, name = nm, completedDays = [], streak = 0\<rparr>"
  shows "app_all P (snd (createHabit b uuid answer a))"
proof -
  from assms have "stored_all P (dbService a)"
    by (simp add: app_all_def)
  with assms show ?thesis
    by (auto simp: createHabit_def Let_def app_all_def
        split: option.splits prod.splits sum.splits dest: stored_all_saveHabit)
qed

lemma app_all_handleToggleHabit:
  assumes "app_all P a" and "\<forall>h. P h \<longrightarrow> Q (toggleDay d h)" and "\<forall>h. P h \<longrightarrow> Q h"
  shows "app_all Q (snd (handleToggleHabit b d k a))"
proof -
  let ?new = "toggleHabits d k (habits a)"
  from assms have old: "\<forall>h \<in> set (habits a). Q h"
    by (auto simp: app_all_def)
  from assms have new: "\<forall>h \<in> set ?new. Q h"
    by (auto simp: app_all_def toggleHabits_def)
  have found: "Q u"
    if "find (\<lambda>h. habit_id h = k) ?new = Some u" for u
  proof -
    from that have "u \<in> set ?new"
      by (auto simp: find_Some_iff)
    with new show ?thesis by blast
  qed
  from assms have "stored_all Q (dbService a)"
    by (auto simp: app_all_def intro: stored_all_mono)
  with old new found show ?thesis
    by (auto simp: handleToggleHabit_def Let_def app_all_def
        split: option.splits prod.splits sum.splits dest: stored_all_saveHabit)
qed

lemma days_within_run:
  assumes "app_all (days_within B) a"
    and "sorted (toggle_days evs)"
    and "\<forall>x \<in> B. \<forall>y \<in> set (toggle_days evs). x \<le> y"
  shows "app_all (days_within (B \<union> set (toggle_days evs))) (run evs a)"
  using assms
proof (induction evs arbitrary: a B)
  case Nil
  then show ?case by simp
next
  case (Cons ev evs)
  show ?case
  proof (cases ev)
    case (LoadData b)
    with Cons.prems have "app_all (days_within B) (handle ev a)"
      by (simp add: app_all_loadData)
    with Cons.prems LoadData show ?thesis
      using Cons.IH [of B "handle ev a"] by simp
  next
    case (CreateHabit b uuid answer)
    have "app_all (days_within B) (snd (createHabit b uuid answer a))"
      using Cons.prems(1) by (rule app_all_createHabit) (simp add: days_within_def)
    with CreateHabit have "app_all (days_within B) (handle ev a)"
      by simp
    with Cons.prems CreateHabit show ?thesis
      using Cons.IH [of B "handle ev a"] by simp
  next
    case (ToggleHabit b t k)
    with Cons.prems have le: "\<forall>x \<in> B. x \<le> t"
      and rest: "sorted (toggle_days evs)"
      and later: "\<forall>x \<in> insert t B. \<forall>y \<in> set (toggle_days evs). x \<le> y"
      by auto
    have "app_all (days_within (insert t B)) (snd (handleToggleHabit b t k a))"
      using Cons.prems(1)
    proof (rule app_all_handleToggleHabit)
      show "\<forall>h. days_within B h \<longrightarrow> days_within (insert t B) (toggleDay t h)"
        using le by (simp add: days_within_toggleDay)
      show "\<forall>h. days_within B h \<longrightarrow> days_within (insert t B) h"
        by (auto intro: days_within_mono)
    qed
    with ToggleHabit have "app_all (days_within (insert t B)) (handle ev a)"
      by simp
    from Cons.IH [OF this rest later] ToggleHabit show ?thesis
      by simp
  qed
qed

lemma app_all_first_start: "app_all P first_start"
  by (simp add: app_all_def first_start_def stored_all_def records_def fresh_def)

lemma toggle_twice_reached:
  assumes "sorted (toggle_days evs @ [d])" and "h \<in> set (habits (run evs first_start))"
  shows "completedDays (toggleDay d (toggleDay d h)) = completedDays h"
proof -
  from assms(1) have s: "sorted (toggle_days evs)" and le: "\<forall>x \<in> set (toggle_days evs). x \<le> d"
    by (auto simp: sorted_append)
  have "app_all (days_within ({} \<union> set (toggle_days evs))) (run evs first_start)"
    using app_all_first_start s by (rule days_within_run) simp
  with assms(2) have dw: "days_within (set (toggle_days evs)) h"
    by (simp add: app_all_def)
  show ?thesis
  proof (cases "d \<in> set (completedDays h)")
    case False
    then show ?thesis by (simp add: toggle_twice_array)
  next
    case True
    from dw le have "\<forall>x \<in> set (completedDays h). x \<le> d"
      by (auto simp: days_within_def)
    with dw True have "\<exists>ds. completedDays h = ds @ [d] \<and> d \<notin> set ds"
      by (intro latest_day_is_last) (auto simp: days_within_def)
    then show ?thesis by (simp add: toggle_twice_array)
  qed
qed

lemma handleToggleHabit_resolved:
  "handleToggleHabit b d k a = (Inr u, a1) \<Longrightarrow> habits a1 = toggleHabits d k (habits a)"
  by (auto simp: handleToggleHabit_def Let_def split: option.splits prod.splits sum.splits)

lemma toggleDay_twice_habit:
  assumes "completedDays (toggleDay d (toggleDay d h)) = completedDays h"
    and "streak_is_count h"
  shows "toggleDay d (toggleDay d h) = h"
proof -
  have "toggleDay d (toggleDay d h) =
      h\<lparr>completedDays := completedDays (toggleDay d (toggleDay d h)),
        streak := length (completedDays (toggleDay d (toggleDay d h)))\<rparr>"
    by (simp add: toggleDay_def Let_def)
  with assms show ?thesis
    by (simp add: streak_is_count_def)
qed

lemma toggleHabits_twice:
  assumes "\<forall>h \<in> set hs. toggleDay d (toggleDay d h) = h"
  shows "toggleHabits d k (toggleHabits d k hs) = hs"
  using assms by (induction hs) (auto simp: toggleHabits_def toggleDay_frame)

lemma handleToggleHabit_twice_reached:
  assumes "sorted (toggle_days evs @ [d])"
    and "handleToggleHabit b1 d k (run evs first_start) = (Inr u1, a1)"
    and "handleToggleHabit b2 d k a1 = (Inr u2, a2)"
  shows "habits a2 = habits (run evs first_start)"
proof -
  let ?hs = "habits (run evs first_start)"
  have "app_ok (run evs first_start)"
    using app_ok_first_start by (rule app_ok_run)
  then have "\<forall>h \<in> set ?hs. toggleDay d (toggleDay d h) = h"
    using toggle_twice_reached [OF assms(1)]
    by (auto simp: app_ok_def intro: toggleDay_twice_habit)
  then have "toggleHabits d k (toggleHabits d k ?hs) = ?hs"
    by (rule toggleHabits_twice)
  with handleToggleHabit_resolved [OF assms(2)] handleToggleHabit_resolved [OF assms(3)]
  show ?thesis by simp
qed

text \<open>
  Claim C3. The toggle is applied twice in succession, the second time to what the first
  produced. For every habit and every day the completed days are then the same set of
  days as before, which is what the data model takes \<^verbatim>\<open>completedDays\<close> to be. The array
  is the same as well exactly when the day was not recorded, or was recorded once and as the
  last entry; and that is so for every habit on screen after any run of the program from
  the first start in which the clock never went back, toggled for a day not before the
  last toggle. After such a run, two calls of \<^verbatim>\<open>handleToggleHabit\<close> for the same day and
  id that both resolve, the second on the state the first left, give back the habit list
  as it was.
\<close>

theorem toggle_twice:
  "set (completedDays (toggleDay d (toggleDay d h))) = set (completedDays h)
   \<and> (completedDays (toggleDay d (toggleDay d h)) = completedDays h
        \<longleftrightarrow> d \<notin> set (completedDays h)
            \<or> (\<exists>ds. completedDays h = ds @ [d] \<and> d \<notin> set ds))
   \<and> (sorted (toggle_days evs @ [d]) \<longrightarrow>
        (\<forall>h' \<in> set (habits (run evs first_start)).
           completedDays (toggleDay d (toggleDay d h')) = completedDays h')
        \<and> (\<forall>a1 a2. handleToggleHabit b1 d k (run evs first_start) = (Inr (), a1)
              \<and> handleToggleHabit b2 d k a1 = (Inr (), a2)
              \<longrightarrow> habits a2 = habits (run evs first_start)))"
  using toggle_twice_set [of d h] toggle_twice_array [of d h] toggle_twice_reached [of evs d]
    handleToggleHabit_twice_reached [of evs d b1 k "()" _ b2 "()"]
  by blast

lemma example_run_state:
  "run example_run first_start
     = \<lparr>habits = [run_habit],
        dbService = write_store ''habits'' [StoredHabit run_habit] opened\<rparr>"
  by (simp add: Let_def example_run_def first_start_def loadData_def createHabit_def
      handleToggleHabit_def getAllNotes_def getAllHabits_def saveHabit_def toggleHabits_def
      toggleDay_def put_def getAll_def ensure_open_def init_def indexedDB_open_def fresh_def
      healthy_def DB_VERSION_def onupgradeneeded_def objectStoreNames_contains_def
      createObjectStore_def transaction_def write_store_def store_getAll_def opened_def
      run_habit_def)

theorem toggle_twice_witness:
  "sorted (toggle_days example_run @ [''2024-01-01''])
   \<and> sorted (toggle_days example_run @ [''2024-01-02''])
   \<and> run_habit \<in> set (habits (run example_run first_start))
   \<and> completedDays run_habit = [''2024-01-01'']
   \<and> completedDays (toggleDay ''2024-01-01'' run_habit) = []
   \<and> completedDays (toggleDay ''2024-01-01'' (toggleDay ''2024-01-01'' run_habit))
       = completedDays run_habit
   \<and> completedDays (toggleDay ''2024-01-02'' run_habit) = [''2024-01-01'', ''2024-01-02'']
   \<and> completedDays (toggleDay ''2024-01-02'' (toggleDay ''2024-01-02'' run_habit))
       = completedDays run_habit
   \<and> handleToggleHabit healthy ''2024-01-02'' ''h1'' (run example_run first_start)
       = (Inr (),
          \<lparr>habits = [toggleDay ''2024-01-02'' run_habit],
           dbService = write_store ''habits'' [StoredHabit (toggleDay ''2024-01-02'' run_habit)]
                         opened\<rparr>)
   \<and> handleToggleHabit healthy ''2024-01-02'' ''h1''
         \<lparr>habits = [toggleDay ''2024-01-02'' run_habit],
          dbService = write_store ''habits'' [StoredHabit (toggleDay ''2024-01-02'' run_habit)]
                        opened\<rparr>
       = (Inr (), run example_run first_start)"
proof -
  have s1: "sorted (toggle_days example_run @ [''2024-01-01''])"
    and s2: "sorted (toggle_days example_run @ [''2024-01-02''])"
    by (simp_all add: example_run_def)
  have mem: "run_habit \<in> set (habits (run example_run first_start))"
    by (simp add: example_run_state)
  have tw1: "completedDays (toggleDay ''2024-01-01'' (toggleDay ''2024-01-01'' run_habit))
      = completedDays run_habit"
    using toggle_twice [of "''2024-01-01''" run_habit example_run healthy "''h1''" healthy]
      s1 mem by blast
  have tw2: "completedDays (toggleDay ''2024-01-02'' (toggleDay ''2024-01-02'' run_habit))
      = completedDays run_habit"
    using toggle_twice [of "''2024-01-02''" run_habit example_run healthy "''h1''" healthy]
      s2 mem by blast
  have once: "completedDays run_habit = [''2024-01-01'']"
    "completedDays (toggleDay ''2024-01-01'' run_habit) = []"
    "completedDays (toggleDay ''2024-01-02'' run_habit) = [''2024-01-01'', ''2024-01-02'']"
    by (simp_all add: run_habit_def toggleDay_def)
  have h1: "handleToggleHabit healthy ''2024-01-02'' ''h1'' (run example_run first_start)
       = (Inr (),
          \<lparr>habits = [toggleDay ''2024-01-02'' run_habit],
           dbService = write_store ''habits'' [StoredHabit (toggleDay ''2024-01-02'' run_habit)]
                         opened\<rparr>)"
    unfolding example_run_state
    by (simp add: Let_def run_habit_def handleToggleHabit_def saveHabit_def
      toggleHabits_def toggleDay_def put_def ensure_open_def healthy_def transaction_def
      write_store_def opened_def init_def indexedDB_open_def fresh_def DB_VERSION_def
      onupgradeneeded_def objectStoreNames_contains_def createObjectStore_def)
  have h2: "handleToggleHabit healthy ''2024-01-02'' ''h1''
         \<lparr>habits = [toggleDay ''2024-01-02'' run_habit],
          dbService = write_store ''habits'' [StoredHabit (toggleDay ''2024-01-02'' run_habit)]
                        opened\<rparr>
       = (Inr (), run example_run first_start)"
    unfolding example_run_state
    by (simp add: Let_def run_habit_def handleToggleHabit_def saveHabit_def
      toggleHabits_def toggleDay_def put_def ensure_open_def healthy_def transaction_def
      write_store_def opened_def init_def indexedDB_open_def fresh_def DB_VERSION_def
      onupgradeneeded_def objectStoreNames_contains_def createObjectStore_def)
  show ?thesis
    by (intro conjI) (fact s1 s2 mem tw1 tw2 once h1 h2)+
qed


section \<open>Properties of the fetch handler\<close>

subsection \<open>Requests to the insight endpoint\<close>

text \<open>\<^verbatim>\<open>includes\<close> holds exactly of the strings in which the other occurs somewhere.\<close>

lemma str_includes_iff: "str_includes s sub \<longleftrightarrow> (\<exists>p q. s = p @ sub @ q)"
  by (induction s) (auto simp: prefix_def Cons_eq_append_conv)

text \<open>
  Claim C7. A request whose URL has the host name of the insight endpoint in it is left
  to the browser: the handler does not call \<^verbatim>\<open>respondWith\<close>, looks nothing up in the
  caches and leaves them as they are, whatever they hold and whatever the network does.
\<close>

theorem insight_endpoint_not_intercepted:
  assumes "url request = pre @ ''generativelanguage.googleapis.com'' @ post"
  shows "fetch_handler env request cs = (NotIntercepted, cs)"
proof -
  from assms have "str_includes (url request) ''generativelanguage.googleapis.com''"
    unfolding str_includes_iff by blast
  then show ?thesis
    by (simp add: fetch_handler_def)
qed

theorem insight_endpoint_not_intercepted_witness:
  "url insight_request = ''https://'' @ ''generativelanguage.googleapis.com'' @ ''/v1beta/models''
   \<and> fetch_handler online_env insight_request
        [(''zenmind-v1'', [(''https://generativelanguage.googleapis.com/v1beta/models'', not_found)])]
     = (NotIntercepted,
        [(''zenmind-v1'', [(''https://generativelanguage.googleapis.com/v1beta/models'', not_found)])])"
  using insight_endpoint_not_intercepted
    [of insight_request "''https://''" "''/v1beta/models''" online_env
      "[(''zenmind-v1'',
          [(''https://generativelanguage.googleapis.com/v1beta/models'', not_found)])]"]
  by (simp add: insight_request_def)


subsection \<open>Cache and network both fail\<close>

text \<open>
  Claim C5. For a request the handler takes, that nothing in the caches matches and whose
  fetch fails: the caches stay as they are; a navigation is answered with the cached
  \<^verbatim>\<open>/index.html\<close> (when there is none, nothing is left to answer with and the request
  fails); any other request fails with a network error, with no response put in its place.
\<close>

theorem offline_fallback:
  assumes "\<not> str_includes (url request) ''generativelanguage.googleapis.com''"
    and "caches_match request cs = None"
    and "fetch env request = None"
  shows "snd (fetch_handler env request cs) = cs
   \<and> (mode request = ''navigate'' \<longrightarrow>
        (\<forall>shell. caches_match (index_html env) cs = Some shell \<longrightarrow>
           fst (fetch_handler env request cs) = Responded shell)
        \<and> (caches_match (index_html env) cs = None \<longrightarrow>
           fst (fetch_handler env request cs) = NetworkError))
   \<and> (mode request \<noteq> ''navigate'' \<longrightarrow> fst (fetch_handler env request cs) = NetworkError)"
  using assms by (simp add: fetch_handler_def split: option.splits)

theorem offline_fallback_witness:
  "\<not> str_includes (url navigation) ''generativelanguage.googleapis.com''
   \<and> caches_match navigation installed = None
   \<and> fetch offline_env navigation = None
   \<and> mode navigation = ''navigate''
   \<and> caches_match (index_html offline_env) installed = Some shell_page
   \<and> fetch_handler offline_env navigation installed = (Responded shell_page, installed)
   \<and> \<not> str_includes (url image_request) ''generativelanguage.googleapis.com''
   \<and> caches_match image_request installed = None
   \<and> fetch offline_env image_request = None
   \<and> mode image_request \<noteq> ''navigate''
   \<and> fetch_handler offline_env image_request installed = (NetworkError, installed)"
  using offline_fallback [of navigation installed offline_env]
    offline_fallback [of image_request installed offline_env]
  by (simp add: navigation_def image_request_def offline_env_def installed_def offline_def
      index_html_def cache_match_def fetch_handler_def)


subsection \<open>What a fetched response leaves in the cache\<close>

text \<open>
  The handler never looks at the status of the response it fetched: a \<^verbatim>\<open>GET\<close> that
  the server answers with 404 is written to the cache like any other.
\<close>

theorem error_response_cached_counterexample:
  "caches_match missing_image installed = None
   \<and> fetch not_found_env missing_image = Some not_found
   \<and> \<not> response_ok not_found
   \<and> fetch_handler not_found_env missing_image installed
       = (Responded not_found,
          [(''zenmind-v1'', [(''https://zen.example/index.html'', shell_page),
                             (''https://zen.example/missing.png'', not_found)])])"
  by (simp add: missing_image_def not_found_env_def installed_def serves_def not_found_def
      response_ok_def cache_match_def fetch_handler_def caches_open_def cache_put_def CACHE_NAME_def)

lemma caches_open_entries:
  assumes "caches_open n cs = (c, cs1)"
  shows "map_of cs1 n = Some c \<and> c = cache_entries n cs
       \<and> (\<forall>n'. cache_entries n' cs1 = cache_entries n' cs)"
  using assms
  by (auto simp: caches_open_def cache_entries_def map_add_def split: option.splits if_splits)

lemma cache_put_entries:
  assumes "map_of cs1 n = Some c"
  shows "cache_entries n' (cache_put n r resp cs1) =
     (if n' = n then AList.update (url r) resp c else cache_entries n' cs1)"
  using assms by (simp add: cache_put_def cache_entries_def update_conv')

text \<open>
  Claim C6, as the code has it. For a request the handler takes, that nothing in the caches
  matches and whose fetch gives a response: that response goes to the page. If the method
  is \<^verbatim>\<open>GET\<close> and the URL does not contain \<^verbatim>\<open>chrome-extension\<close> (and the engine
  takes the write), the current cache then maps the URL to that response, whatever its
  status, and every other entry of every cache is as before. Otherwise the entries of
  every cache are as before.
\<close>

theorem cache_population:
  assumes "\<not> str_includes (url request) ''generativelanguage.googleapis.com''"
    and "caches_match request cs = None"
    and "fetch env request = Some resp"
  shows "fst (fetch_handler env request cs) = Responded resp
   \<and> (http_method request = ''GET'' \<and> \<not> str_includes (url request) ''chrome-extension''
        \<and> put_accepted env \<longrightarrow>
        map_of (cache_entries CACHE_NAME (snd (fetch_handler env request cs))) (url request)
          = Some resp
        \<and> (\<forall>n u. (n, u) \<noteq> (CACHE_NAME, url request) \<longrightarrow>
             map_of (cache_entries n (snd (fetch_handler env request cs))) u
               = map_of (cache_entries n cs) u))
   \<and> (http_method request \<noteq> ''GET'' \<or> str_includes (url request) ''chrome-extension''
        \<or> \<not> put_accepted env \<longrightarrow>
        (\<forall>n. cache_entries n (snd (fetch_handler env request cs)) = cache_entries n cs))"
proof -
  obtain c cs1 where op: "caches_open CACHE_NAME cs = (c, cs1)"
    by (cases "caches_open CACHE_NAME cs")
  note e = caches_open_entries [OF op]
  let ?caching = "http_method request = ''GET'' \<and> \<not> str_includes (url request) ''chrome-extension''
        \<and> put_accepted env"
  have res: "fetch_handler env request cs =
      (Responded resp, if ?caching then cache_put CACHE_NAME request resp cs1 else cs1)"
    using assms op by (simp add: fetch_handler_def)
  have after_put: "cache_entries n (cache_put CACHE_NAME request resp cs1) =
      (if n = CACHE_NAME then AList.update (url request) resp c else cache_entries n cs)" for n
    using e by (simp add: cache_put_entries)
  show ?thesis
  proof (cases ?caching)
    case True
    with res have "snd (fetch_handler env request cs) = cache_put CACHE_NAME request resp cs1"
      by simp
    with res True e show ?thesis
      by (auto simp: after_put update_conv')
  next
    case False
    with res have "snd (fetch_handler env request cs) = cs1"
      by auto
    with res False e show ?thesis
      by auto
  qed
qed

theorem cache_population_witness:
  "\<not> str_includes (url image_request) ''generativelanguage.googleapis.com''
   \<and> caches_match image_request installed = None
   \<and> fetch online_env image_request = Some logo
   \<and> http_method image_request = ''GET''
   \<and> \<not> str_includes (url image_request) ''chrome-extension''
   \<and> put_accepted online_env
   \<and> fetch_handler online_env image_request installed
       = (Responded logo,
          [(''zenmind-v1'', [(''https://zen.example/index.html'', shell_page),
                             (''https://zen.example/logo.png'', logo)])])
   \<and> \<not> str_includes (url post_request) ''generativelanguage.googleapis.com''
   \<and> caches_match post_request installed = None
   \<and> fetch online_env post_request = Some logo
   \<and> http_method post_request \<noteq> ''GET''
   \<and> fetch_handler online_env post_request installed = (Responded logo, installed)"
  using cache_population [of image_request installed online_env logo]
    cache_population [of post_request installed online_env logo]
  by (simp add: image_request_def post_request_def online_env_def installed_def serves_def
      cache_match_def fetch_handler_def caches_open_def cache_put_def CACHE_NAME_def)

end
